theory Spec2Isabelle
  imports Complex_Main
begin

section \<open>Python values held by a blob\<close>

text \<open>
  The module \<^verbatim>\<open>auslib/blobs/base.py\<close> is Python 2 code working on the plain nested
  containers that \<^verbatim>\<open>simplejson\<close> produces: \<^verbatim>\<open>None\<close>, \<^verbatim>\<open>bool\<close>, \<^verbatim>\<open>int\<close>, \<^verbatim>\<open>long\<close>,
  \<^verbatim>\<open>float\<close>, \<^verbatim>\<open>str\<close>, \<^verbatim>\<open>unicode\<close>, \<^verbatim>\<open>list\<close> and \<^verbatim>\<open>dict\<close>. A \<^verbatim>\<open>str\<close> is a list of bytes,
  a \<^verbatim>\<open>unicode\<close> a list of code points. A \<^verbatim>\<open>float\<close> is a finite number, held as the
  rational number it denotes, or one of the two infinities. The one \<^verbatim>\<open>float\<close> left out is
  NaN: it is the only value that is not equal to itself, and what lists and dicts do
  with it (\<^verbatim>\<open>in\<close>, \<^verbatim>\<open>index\<close> and \<^verbatim>\<open>==\<close> of containers take an element for equal to itself)
  depends on which objects are the same object, which values do not tell. Every
  statement below is about documents that hold no NaN. A \<^verbatim>\<open>dict\<close> is an association
  list; a Python dict never holds a key twice, which is the predicate \<open>well_formed\<close> below. Keys are text; the model does not tell
  the \<^verbatim>\<open>str\<close> key \<^verbatim>\<open>'a'\<close> from the \<^verbatim>\<open>unicode\<close> key \<^verbatim>\<open>u'a'\<close>, which Python treats as the
  same key.
\<close>

type_synonym key = string

datatype pyfloat = FNum rat | FPosInf | FNegInf

datatype pyval =
    PNone
  | PBool bool
  | PInt int
  | PLong int
  | PFloat pyfloat
  | PStr string
  | PUnicode "nat list"
  | PList "pyval list"
  | PDict "(key \<times> pyval) list"

type_synonym dict = "(key \<times> pyval) list"

text \<open>The result of Python's \<^verbatim>\<open>type(v)\<close>.\<close>

datatype pytype = TNone | TBool | TInt | TLong | TFloat | TStr | TUnicode | TList | TDict

fun py_type :: "pyval \<Rightarrow> pytype" where
  "py_type PNone = TNone"
| "py_type (PBool b) = TBool"
| "py_type (PInt n) = TInt"
| "py_type (PLong n) = TLong"
| "py_type (PFloat f) = TFloat"
| "py_type (PStr s) = TStr"
| "py_type (PUnicode u) = TUnicode"
| "py_type (PList xs) = TList"
| "py_type (PDict d) = TDict"

text \<open>
  \<^verbatim>\<open>isinstance(v, t)\<close> for a type \<open>t\<close> obtained from \<^verbatim>\<open>type(...)\<close>: the type of \<open>v\<close> is
  \<open>t\<close> or a subclass of it. Among the types above the only subclass relation is
  \<^verbatim>\<open>bool\<close> below \<^verbatim>\<open>int\<close>.
\<close>

definition isinstance :: "pyval \<Rightarrow> pytype \<Rightarrow> bool" where
  "isinstance v t = (py_type v = t \<or> (py_type v = TBool \<and> t = TInt))"

text \<open>
  Well-formed values: every dict, at every depth, holds each key once.
\<close>

fun well_formed :: "pyval \<Rightarrow> bool" where
  "well_formed (PList xs) = list_all well_formed xs"
| "well_formed (PDict d) = (distinct (map fst d) \<and> list_all (\<lambda>kv. well_formed (snd kv)) d)"
| "well_formed v = True"

text \<open>
  Python's \<^verbatim>\<open>==\<close> on these values. Numbers compare by value across \<^verbatim>\<open>bool\<close>, \<^verbatim>\<open>int\<close>,
  \<^verbatim>\<open>long\<close> and \<^verbatim>\<open>float\<close> (\<^verbatim>\<open>True == 1\<close>, \<^verbatim>\<open>1 == 1.0\<close>); \<open>num_of\<close> is the integer a number
  equals, if there is one. A \<^verbatim>\<open>str\<close> equals a \<^verbatim>\<open>unicode\<close> when it decodes as
  ASCII to the same code points, and is unequal to it otherwise. Lists compare
  element by element; dicts are equal when they have the same number of entries and
  every key of the first is a key of the second with an equal value.
\<close>

fun num_of :: "pyval \<Rightarrow> int option" where
  "num_of (PBool b) = Some (if b then 1 else 0)"
| "num_of (PInt n) = Some n"
| "num_of (PLong n) = Some n"
| "num_of (PFloat f) =
     (case f of FNum q \<Rightarrow> if of_int \<lfloor>q\<rfloor> = q then Some \<lfloor>q\<rfloor> else None
              | _ \<Rightarrow> None)"
| "num_of v = None"

definition decode_ascii :: "string \<Rightarrow> nat list option" where
  "decode_ascii s = (if list_all (\<lambda>c. (of_char c :: nat) < 128) s
                     then Some (map of_char s) else None)"

definition dict_lookup :: "dict \<Rightarrow> key \<Rightarrow> pyval option" where
  "dict_lookup d k = map_of d k"

lemma dict_lookup_size [termination_simp]:
  "dict_lookup d k = Some v \<Longrightarrow> size v < Suc (size_list (size_prod (\<lambda>_. 0) size) d)"
  unfolding dict_lookup_def
  by (induction d) (auto split: if_splits)

lemma elem_size:
  "a \<in> set xs \<Longrightarrow> size a < Suc (size_list size xs)"
  by (induction xs) auto

lemma zip_left_size [termination_simp]:
  "(a, b) \<in> set (zip xs ys) \<Longrightarrow> size a < Suc (size_list size xs)"
  by (rule elem_size) (erule set_zip_leftD)

fun py_eq :: "pyval \<Rightarrow> pyval \<Rightarrow> bool" where
  "py_eq (PList xs) y =
     (case y of PList ys \<Rightarrow> length xs = length ys \<and> list_all (\<lambda>(a, b). py_eq a b) (zip xs ys)
              | _ \<Rightarrow> False)"
| "py_eq (PDict d) y =
     (case y of PDict e \<Rightarrow> length d = length e \<and>
                  list_all (\<lambda>(k, v). case dict_lookup e k of None \<Rightarrow> False
                                                         | Some w \<Rightarrow> py_eq v w) d
              | _ \<Rightarrow> False)"
| "py_eq (PStr s) y =
     (case y of PStr t \<Rightarrow> s = t
              | PUnicode u \<Rightarrow> decode_ascii s = Some u
              | _ \<Rightarrow> False)"
| "py_eq (PUnicode u) y =
     (case y of PUnicode v \<Rightarrow> u = v
              | PStr s \<Rightarrow> decode_ascii s = Some u
              | _ \<Rightarrow> False)"
| "py_eq PNone y = (y = PNone)"
| "py_eq (PFloat f) y =
     (case y of PFloat g \<Rightarrow> f = g
              | _ \<Rightarrow> (case (num_of (PFloat f), num_of y) of (Some m, Some n) \<Rightarrow> m = n
                                                              | _ \<Rightarrow> False))"
| "py_eq x y = (case (num_of x, num_of y) of (Some m, Some n) \<Rightarrow> m = n | _ \<Rightarrow> False)"


section \<open>Dictionary access\<close>

text \<open>
  \<^verbatim>\<open>key in d\<close>, \<^verbatim>\<open>d.get(key)\<close> (\<^verbatim>\<open>None\<close> for a missing key), \<^verbatim>\<open>d.get(key, default)\<close>
  and the assignment \<^verbatim>\<open>d[key] = v\<close>.
\<close>

definition has_key :: "key \<Rightarrow> dict \<Rightarrow> bool" where
  "has_key k d = (dict_lookup d k \<noteq> None)"

definition dict_get :: "dict \<Rightarrow> key \<Rightarrow> pyval" where
  "dict_get d k = (case dict_lookup d k of None \<Rightarrow> PNone | Some v \<Rightarrow> v)"

definition dict_get_default :: "dict \<Rightarrow> key \<Rightarrow> pyval \<Rightarrow> pyval" where
  "dict_get_default d k dflt = (case dict_lookup d k of None \<Rightarrow> dflt | Some v \<Rightarrow> v)"

fun dict_set :: "dict \<Rightarrow> key \<Rightarrow> pyval \<Rightarrow> dict" where
  "dict_set [] k v = [(k, v)]"
| "dict_set ((k', v') # d) k v = (if k' = k then (k, v) # d else (k', v') # dict_set d k v)"

section \<open>The merge engine\<close>

subsection \<open>merge\_lists\<close>

text \<open>
  \<^verbatim>\<open>
  def merge_lists(*lists):
      result = []
      for l in lists:
          for i in l:
              if i not in result or not isinstance(i, type(result[result.index(i)])):
                  result.append(i)
      return result
  \<close>
  \<open>merge_step\<close> is the body of the inner loop. \<^verbatim>\<open>i not in result\<close> and
  \<^verbatim>\<open>result.index(i)\<close> both look for the first element of \<open>result\<close> that equals \<open>i\<close>;
  \<open>find\<close> returns it, or \<open>None\<close> when there is none.
\<close>

definition merge_step :: "pyval list \<Rightarrow> pyval \<Rightarrow> pyval list" where
  "merge_step result i =
     (case find (\<lambda>e. py_eq e i) result of
        None \<Rightarrow> result @ [i]
      | Some e \<Rightarrow> if \<not> isinstance i (py_type e) then result @ [i] else result)"

definition merge_lists :: "pyval list list \<Rightarrow> pyval list" where
  "merge_lists ls = foldl (\<lambda>result l. foldl merge_step result l) [] ls"

subsection \<open>merge\_dicts\<close>

text \<open>
  The exceptions a merge can end with:
  \<^item> \<open>TypeMismatch key\<close>: \<^verbatim>\<open>ValueError("Cannot merge blobs: type mismatch for '<key>'")\<close>;
  \<^item> \<open>BothChanging key\<close>:
    \<^verbatim>\<open>ValueError("Cannot merge blobs: left and right are both changing '<key>'")\<close>;
  \<^item> \<open>NoValueFound key\<close>: \<^verbatim>\<open>KeyError("Couldn't find value for key '<key>'")\<close>;
  \<^item> \<open>NoKeysAttribute\<close>: the \<^verbatim>\<open>AttributeError\<close> of \<^verbatim>\<open>d.keys()\<close> on a value that is not a
    dict;
  \<^item> \<open>NotIterable\<close>: the \<^verbatim>\<open>TypeError\<close> of \<^verbatim>\<open>for i in l\<close> on \<^verbatim>\<open>None\<close>.

  The messages hold \<^verbatim>\<open>key.encode('ascii', 'replace')\<close>; the exceptions of the model carry the
  key itself. Keys are taken to be as the JSON parser yields them, \<^verbatim>\<open>unicode\<close> or ASCII
  \<^verbatim>\<open>str\<close>, for which that call succeeds.
\<close>

datatype merge_error =
    TypeMismatch key
  | BothChanging key
  | NoValueFound key
  | NoKeysAttribute
  | NotIterable

text \<open>
  The type check at the head of the loop body:
  \<^verbatim>\<open>
  key_types = set([type(d.get(key)) for d in dicts])
  key_types.discard(type(None))
  if len(key_types) > 1 and not key_types.issubset([str, unicode]):
      raise ValueError("Cannot merge blobs: type mismatch for ...")
  \<close>
\<close>

definition key_types :: "dict \<Rightarrow> dict \<Rightarrow> dict \<Rightarrow> key \<Rightarrow> pytype list" where
  "key_types ancestor left right key =
     removeAll TNone (remdups (map (\<lambda>d. py_type (dict_get d key)) [ancestor, left, right]))"

definition type_mismatch :: "dict \<Rightarrow> dict \<Rightarrow> dict \<Rightarrow> key \<Rightarrow> bool" where
  "type_mismatch ancestor left right key =
     (length (key_types ancestor left right key) > 1 \<and>
      \<not> set (key_types ancestor left right key) \<subseteq> {TStr, TUnicode})"

text \<open>\<^verbatim>\<open>any(isinstance(d.get(key), t) for d in dicts)\<close> for \<open>t\<close> one of \<^verbatim>\<open>dict\<close>, \<^verbatim>\<open>list\<close>.\<close>

definition any_isinstance :: "pytype \<Rightarrow> dict \<Rightarrow> dict \<Rightarrow> dict \<Rightarrow> key \<Rightarrow> bool" where
  "any_isinstance t ancestor left right key =
     list_ex (\<lambda>d. isinstance (dict_get d key) t) [ancestor, left, right]"

text \<open>
  The arguments of the call \<^verbatim>\<open>merge_lists(*[d.get(key, []) for d in dicts])\<close>. Once the
  type check has passed and one of the values is a list, every value is a list or
  \<^verbatim>\<open>None\<close>, and the loop \<^verbatim>\<open>for i in l\<close> on \<^verbatim>\<open>None\<close> raises \<^verbatim>\<open>TypeError\<close>.
\<close>

fun as_lists :: "pyval list \<Rightarrow> pyval list list option" where
  "as_lists [] = Some []"
| "as_lists (PList xs # vs) = (case as_lists vs of None \<Rightarrow> None | Some ls \<Rightarrow> Some (xs # ls))"
| "as_lists (v # vs) = None"

text \<open>
  The scalar branch of the loop body:
  \<^verbatim>\<open>
  if key in ancestor:
      if key in left and key in right and ancestor[key] != left[key] and ancestor[key] != right[key]:
          raise ValueError("Cannot merge blobs: left and right are both changing ...")
      if key in left and ancestor[key] != left.get(key):
          result[key] = left[key]
      elif key in right and ancestor[key] != right.get(key):
          result[key] = right[key]
      else:
          result[key] = ancestor[key]
  else:
      if key in left and key in right and left[key] != right[key]:
          raise ValueError("Cannot merge blobs: left and right are both changing ...")
      if key in left:
          result[key] = left[key]
      elif key in right:
          result[key] = right[key]
      else:
          raise KeyError("Couldn't find value for key ...")
  \<close>
  \<open>merge_scalar\<close> returns the value stored under \<open>key\<close>, or the exception.
\<close>

definition both_differ :: "pyval \<Rightarrow> pyval option \<Rightarrow> pyval option \<Rightarrow> bool" where
  "both_differ av lo ro =
     (case lo of None \<Rightarrow> False
      | Some lv \<Rightarrow> (case ro of None \<Rightarrow> False
                    | Some rv \<Rightarrow> \<not> py_eq av lv \<and> \<not> py_eq av rv))"

definition merge_scalar :: "dict \<Rightarrow> dict \<Rightarrow> dict \<Rightarrow> key \<Rightarrow> merge_error + pyval" where
  "merge_scalar ancestor left right key =
     (case dict_lookup ancestor key of
        Some av \<Rightarrow>
          if both_differ av (dict_lookup left key) (dict_lookup right key)
          then Inl (BothChanging key)
          else if has_key key left \<and> \<not> py_eq av (dict_get left key)
          then Inr (dict_get left key)
          else if has_key key right \<and> \<not> py_eq av (dict_get right key)
          then Inr (dict_get right key)
          else Inr av
      | None \<Rightarrow>
          (case dict_lookup left key of
             Some lv \<Rightarrow>
               (case dict_lookup right key of
                  Some rv \<Rightarrow> if \<not> py_eq lv rv then Inl (BothChanging key) else Inr lv
                | None \<Rightarrow> Inr lv)
           | None \<Rightarrow>
               (case dict_lookup right key of
                  Some rv \<Rightarrow> Inr rv
                | None \<Rightarrow> Inl (NoValueFound key))))"

text \<open>
  \<^verbatim>\<open>
  def merge_dicts(ancestor, left, right):
      result = {}
      dicts = (ancestor, left, right)
      for key in set(key for d in dicts for key in d.keys()):
          ... type check ...
          if any(isinstance(d.get(key), dict) for d in dicts):
              result[key] = merge_dicts(*[d.get(key, {}) for d in dicts])
          elif any(isinstance(d.get(key), list) for d in dicts):
              result[key] = merge_lists(*[d.get(key, []) for d in dicts])
          else:
              ... scalar branch ...
      return result
  \<close>
  Python does not fix the order in which a set is iterated. The model takes that
  order as a parameter \<open>ko\<close>: the function that turns the keys of the three dicts, as
  the generator yields them, into the sequence the loop visits. Whatever the hash
  order is, it visits every key once: \<open>key_order ko\<close>.

  \<open>merge_dicts\<close> takes values, as the recursive call passes whatever \<^verbatim>\<open>d.get(key, {})\<close>
  returns: a value that is not a dict has no \<^verbatim>\<open>keys\<close> method. \<open>merge_keys\<close> is the loop,
  over the keys still to visit, with the \<open>result\<close> built so far.
\<close>

definition key_order :: "(key list \<Rightarrow> key list) \<Rightarrow> bool" where
  "key_order ko = (\<forall>ks. set (ko ks) = set ks \<and> distinct (ko ks))"

lemma dict_get_default_size:
  "size (dict_get_default d k (PDict [])) \<le> size (PDict d)"
  "size (dict_get_default d k (PList [])) \<le> size (PDict d)"
  unfolding dict_get_default_def
  by (auto split: option.splits dest: dict_lookup_size)

lemma dict_get_default_size_less:
  "isinstance (dict_get d k) TDict \<Longrightarrow> size (dict_get_default d k dflt) < size (PDict d)"
  unfolding dict_get_default_def dict_get_def isinstance_def
  by (auto split: option.splits dest: dict_lookup_size)

function merge_dicts :: "(key list \<Rightarrow> key list) \<Rightarrow> pyval \<Rightarrow> pyval \<Rightarrow> pyval \<Rightarrow> merge_error + dict"
  and merge_keys :: "(key list \<Rightarrow> key list) \<Rightarrow> dict \<Rightarrow> dict \<Rightarrow> dict \<Rightarrow> key list \<Rightarrow> dict
                       \<Rightarrow> merge_error + dict"
where
  "merge_dicts ko ancestor left right =
     (case ancestor of
        PDict a \<Rightarrow>
          (case left of
             PDict l \<Rightarrow>
               (case right of
                  PDict r \<Rightarrow> merge_keys ko a l r (ko (map fst a @ map fst l @ map fst r)) []
                | _ \<Rightarrow> Inl NoKeysAttribute)
           | _ \<Rightarrow> Inl NoKeysAttribute)
      | _ \<Rightarrow> Inl NoKeysAttribute)"
| "merge_keys ko a l r [] result = Inr result"
| "merge_keys ko a l r (key # keys) result =
     (if type_mismatch a l r key then Inl (TypeMismatch key)
      else if any_isinstance TDict a l r key then
        (case merge_dicts ko (dict_get_default a key (PDict []))
                             (dict_get_default l key (PDict []))
                             (dict_get_default r key (PDict [])) of
           Inl e \<Rightarrow> Inl e
         | Inr v \<Rightarrow> merge_keys ko a l r keys (dict_set result key (PDict v)))
      else if any_isinstance TList a l r key then
        (case as_lists [dict_get_default a key (PList []),
                        dict_get_default l key (PList []),
                        dict_get_default r key (PList [])] of
           None \<Rightarrow> Inl NotIterable
         | Some ls \<Rightarrow> merge_keys ko a l r keys (dict_set result key (PList (merge_lists ls))))
      else
        (case merge_scalar a l r key of
           Inl e \<Rightarrow> Inl e
         | Inr v \<Rightarrow> merge_keys ko a l r keys (dict_set result key v)))"
  by pat_completeness auto
termination
proof (relation "inv_image (less_than <*lex*> less_than <*lex*> less_than)
    (\<lambda>x. case x of
       Inl (ko, a, l, r) \<Rightarrow> (size a + size l + size r, Suc 0, 0)
     | Inr (ko, a, l, r, keys, result) \<Rightarrow>
         (size (PDict a) + size (PDict l) + size (PDict r), 0, length keys))", goal_cases)
  case 1
  then show ?case by (intro wf_inv_image wf_lex_prod wf_less_than)
next
  case (2 ko ancestor left right a l r)
  then show ?case by simp
next
  case (3 ko a l r key keys result)
  from 3(2) consider "isinstance (dict_get a key) TDict" | "isinstance (dict_get l key) TDict"
    | "isinstance (dict_get r key) TDict"
    by (auto simp: any_isinstance_def)
  then have "size (dict_get_default a key (PDict [])) + size (dict_get_default l key (PDict []))
           + size (dict_get_default r key (PDict []))
           < size (PDict a) + size (PDict l) + size (PDict r)"
  proof cases
    case 1
    from dict_get_default_size_less[OF this, of "PDict []"]
      dict_get_default_size(1)[of l key] dict_get_default_size(1)[of r key]
    show ?thesis by linarith
  next
    case 2
    from dict_get_default_size_less[OF this, of "PDict []"]
      dict_get_default_size(1)[of a key] dict_get_default_size(1)[of r key]
    show ?thesis by linarith
  next
    case 3
    from dict_get_default_size_less[OF this, of "PDict []"]
      dict_get_default_size(1)[of a key] dict_get_default_size(1)[of l key]
    show ?thesis by linarith
  qed
  then show ?case by simp
next
  case 4
  then show ?case by simp
next
  case 5
  then show ?case by simp
next
  case 6
  then show ?case by simp
qed


section \<open>The variant registry\<close>

text \<open>
  \<^verbatim>\<open>
  def createBlob(data):
      blob_map = {1: ReleaseBlobV1, 2: ReleaseBlobV2, 3: ReleaseBlobV3, 4: ReleaseBlobV4,
                  5: ReleaseBlobV5, 6: ReleaseBlobV6, 7: ReleaseBlobV7, 8: ReleaseBlobV8,
                  50: DesupportBlob, 1000: GMPBlobV1, 4000: SuperBlob, 5000: SystemAddonsBlob}
      if isinstance(data, basestring):
          data = json.loads(data)
      schema_version = data.get("schema_version")
      if not schema_version:
          raise ValueError("schema_version is not set")
      if schema_version not in blob_map:
          raise ValueError("schema_version is unknown")
      return blob_map[schema_version](**data)
  \<close>
  The model starts from the parsed mapping. The variant classes live in other modules;
  the result names the class that is called and the keyword arguments it is called
  with.
\<close>

datatype variant =
    ReleaseBlobV1 | ReleaseBlobV2 | ReleaseBlobV3 | ReleaseBlobV4
  | ReleaseBlobV5 | ReleaseBlobV6 | ReleaseBlobV7 | ReleaseBlobV8
  | DesupportBlob | GMPBlobV1 | SuperBlob | SystemAddonsBlob

definition blob_map :: "(int \<times> variant) list" where
  "blob_map =
     [(1, ReleaseBlobV1), (2, ReleaseBlobV2), (3, ReleaseBlobV3), (4, ReleaseBlobV4),
      (5, ReleaseBlobV5), (6, ReleaseBlobV6), (7, ReleaseBlobV7), (8, ReleaseBlobV8),
      (50, DesupportBlob), (1000, GMPBlobV1), (4000, SuperBlob), (5000, SystemAddonsBlob)]"

text \<open>
  The exceptions of \<^verbatim>\<open>createBlob\<close>:
  \<^item> \<open>SchemaVersionNotSet\<close>: \<^verbatim>\<open>ValueError("schema_version is not set")\<close>;
  \<^item> \<open>SchemaVersionUnknown\<close>: \<^verbatim>\<open>ValueError("schema_version is unknown")\<close>;
  \<^item> \<open>Unhashable\<close>: the \<^verbatim>\<open>TypeError\<close> of \<^verbatim>\<open>schema_version not in blob_map\<close> for a list or
    a dict, which cannot be hashed.
\<close>

datatype create_error = SchemaVersionNotSet | SchemaVersionUnknown | Unhashable

text \<open>Python's truth value of a value, as \<^verbatim>\<open>not schema_version\<close> tests it.\<close>

fun truthy :: "pyval \<Rightarrow> bool" where
  "truthy PNone = False"
| "truthy (PBool b) = b"
| "truthy (PInt n) = (n \<noteq> 0)"
| "truthy (PLong n) = (n \<noteq> 0)"
| "truthy (PFloat f) = (f \<noteq> FNum 0)"
| "truthy (PStr s) = (s \<noteq> [])"
| "truthy (PUnicode u) = (u \<noteq> [])"
| "truthy (PList xs) = (xs \<noteq> [])"
| "truthy (PDict d) = (d \<noteq> [])"

text \<open>
  \<^verbatim>\<open>blob_map[schema_version]\<close> with the membership test before it: the keys of
  \<^verbatim>\<open>blob_map\<close> are ints, found by hash and \<^verbatim>\<open>==\<close>, so a number finds the key of its
  value and a string finds none.
\<close>

definition blob_map_find :: "pyval \<Rightarrow> create_error + variant option" where
  "blob_map_find v =
     (if py_type v = TList \<or> py_type v = TDict then Inl Unhashable
      else case num_of v of None \<Rightarrow> Inr None | Some n \<Rightarrow> Inr (map_of blob_map n))"

definition createBlob :: "dict \<Rightarrow> create_error + (variant \<times> dict)" where
  "createBlob data =
     (let schema_version = dict_get data ''schema_version'' in
      if \<not> truthy schema_version then Inl SchemaVersionNotSet
      else case blob_map_find schema_version of
             Inl e \<Rightarrow> Inl e
           | Inr None \<Rightarrow> Inl SchemaVersionUnknown
           | Inr (Some cls) \<Rightarrow> Inr (cls, data))"

section \<open>Validation\<close>

text \<open>
  \<^verbatim>\<open>
  def validate(self, product, whitelistedDomains):
      validator = jsonschema.Draft4Validator(self.getSchema())
      errors = [e.message for e in validator.iter_errors(self)]
      if errors:
          raise BlobValidationError("Invalid blob! See 'errors' for details.", errors)
      if self.containsForbiddenDomain(product, whitelistedDomains):
          raise ValueError("Blob contains forbidden domain(s)")
  \<close>
  The schema validator is a library and \<^verbatim>\<open>containsForbiddenDomain\<close> is supplied by each
  variant class (the one of \<^verbatim>\<open>Blob\<close> raises \<^verbatim>\<open>NotImplementedError\<close>); both are parameters
  of the model. \<open>iter_errors self\<close> is the list of the messages of all the errors the
  validator yields for the blob, or the exception that building the validator or
  running it raises. \<open>BlobValidationError errors\<close> carries the \<^verbatim>\<open>errors\<close> attribute of the
  exception; \<open>ForbiddenDomain\<close> is the \<^verbatim>\<open>ValueError\<close> of the last line; \<open>Raised e\<close> is an
  exception \<open>e\<close> of one of the two parameters, passed on.
\<close>

datatype 'e validate_error = BlobValidationError "string list" | ForbiddenDomain | Raised 'e

definition validate ::
  "('b \<Rightarrow> 'e + string list) \<Rightarrow> ('b \<Rightarrow> 'p \<Rightarrow> 'w \<Rightarrow> 'e + bool) \<Rightarrow> 'b \<Rightarrow> 'p \<Rightarrow> 'w
     \<Rightarrow> 'e validate_error + unit" where
  "validate iter_errors containsForbiddenDomain self product whitelistedDomains =
     (case iter_errors self of
        Inl e \<Rightarrow> Inl (Raised e)
      | Inr errors \<Rightarrow>
          if errors \<noteq> [] then Inl (BlobValidationError errors)
          else (case containsForbiddenDomain self product whitelistedDomains of
                  Inl e \<Rightarrow> Inl (Raised e)
                | Inr forbidden \<Rightarrow> if forbidden then Inl ForbiddenDomain else Inr ()))"


subsection \<open>The type check as the specification words it\<close>

text \<open>
  The specification describes the type check as collecting the types of the key's
  values "ignoring documents where the key is absent": \<open>spec_key_types\<close> are the types
  of the values in the documents that hold the key, and \<open>spec_type_mismatch\<close> is the
  failure condition on them. It is compared with \<open>type_mismatch\<close> below.
\<close>

definition spec_key_types :: "dict \<Rightarrow> dict \<Rightarrow> dict \<Rightarrow> key \<Rightarrow> pytype list" where
  "spec_key_types ancestor left right key =
     remdups (map (\<lambda>d. py_type (dict_get d key)) (filter (has_key key) [ancestor, left, right]))"

definition spec_type_mismatch :: "dict \<Rightarrow> dict \<Rightarrow> dict \<Rightarrow> key \<Rightarrow> bool" where
  "spec_type_mismatch ancestor left right key =
     (length (spec_key_types ancestor left right key) > 1 \<and>
      \<not> set (spec_key_types ancestor left right key) \<subseteq> {TStr, TUnicode})"

subsection \<open>Documents that merge to the changed side\<close>

text \<open>
  The conditions under which a merge with one unchanged side returns the other side.
  \<open>py_distinct xs\<close>: no element of \<open>xs\<close> equals a later one. \<open>seqs_distinct v\<close>: every
  sequence that \<^verbatim>\<open>merge_dicts\<close> hands to \<^verbatim>\<open>merge_lists\<close>, that is every sequence stored under
  a key of \<open>v\<close> or of a mapping nested in \<open>v\<close> through keys, is \<open>py_distinct\<close>.
  \<open>clean_change old new\<close>: \<open>new\<close> keeps every key of \<open>old\<close>, at every depth of nested
  mappings; where \<open>old\<close> holds a mapping \<open>new\<close> holds a mapping; where \<open>old\<close> holds a
  sequence \<open>new\<close> holds a sequence that starts with it; and where \<open>old\<close> holds a scalar
  \<open>new\<close> holds a scalar of the same type, or one of the two is \<^verbatim>\<open>None\<close>, or both are
  text.
\<close>

fun py_distinct :: "pyval list \<Rightarrow> bool" where
  "py_distinct [] = True"
| "py_distinct (x # xs) = (list_all (\<lambda>y. \<not> py_eq x y) xs \<and> py_distinct xs)"

fun seqs_distinct :: "pyval \<Rightarrow> bool" where
  "seqs_distinct (PDict d) = list_all (\<lambda>kv. seqs_distinct (snd kv)) d"
| "seqs_distinct (PList xs) = py_distinct xs"
| "seqs_distinct v = True"

fun clean_change :: "pyval \<Rightarrow> pyval \<Rightarrow> bool" where
  "clean_change (PDict a) new =
     (case new of
        PDict r \<Rightarrow> list_all (\<lambda>(k, va). case dict_lookup r k of None \<Rightarrow> False
                                                          | Some vr \<Rightarrow> clean_change va vr) a
      | _ \<Rightarrow> False)"
| "clean_change (PList xs) new =
     (case new of PList ys \<Rightarrow> take (length xs) ys = xs | _ \<Rightarrow> False)"
| "clean_change old new =
     (py_type new \<noteq> TList \<and> py_type new \<noteq> TDict \<and>
      (py_type old = py_type new \<or> old = PNone \<or> new = PNone \<or>
       (py_type old \<in> {TStr, TUnicode} \<and> py_type new \<in> {TStr, TUnicode})))"

text \<open>
  \<open>agrees res t\<close>: the result built so far holds each key once, and each of its values
  equals the value of \<open>t\<close> under the same key.
\<close>

definition agrees :: "dict \<Rightarrow> dict \<Rightarrow> bool" where
  "agrees res t =
     (distinct (map fst res) \<and>
      list_all (\<lambda>(k, v). case dict_lookup t k of None \<Rightarrow> False | Some w \<Rightarrow> py_eq v w) res)"

section \<open>The merge engine on a heap of mutable objects\<close>

text \<open>
  The functions above compute the value a merge returns. Whether a merge changes its
  inputs is a question about objects: Python lists and dicts are mutable and shared by
  reference. In this second embedding of \<^verbatim>\<open>merge_lists\<close> and \<^verbatim>\<open>merge_dicts\<close> a value is a
  scalar or a reference \<open>HRef p\<close> to an object, the heap maps addresses to objects, and
  \<open>next_addr\<close> is the next free address: the objects that exist are those below it.
  Every statement of the source that creates an object (\<^verbatim>\<open>result = []\<close>, \<^verbatim>\<open>result = {}\<close>,
  and the defaults \<^verbatim>\<open>{}\<close> and \<^verbatim>\<open>[]\<close> of \<^verbatim>\<open>d.get(key, {})\<close>, which Python builds before the
  call) is an \<open>alloc\<close>, and every statement that writes (\<^verbatim>\<open>result.append(i)\<close>,
  \<^verbatim>\<open>result[key] = ...\<close>) is an update of the heap at the address written. Each function
  returns its outcome, a value or an exception, together with the heap it leaves.

  The first argument \<open>n\<close> bounds the depth of nested calls of \<^verbatim>\<open>merge_dicts\<close> (Python's
  recursion limit) and the number of steps of one \<^verbatim>\<open>for i in l\<close> loop, which reads the
  list at each step and so need not end if the list grows; \<open>OutOfFuel\<close> is the outcome
  when the bound is reached.
\<close>

type_synonym addr = nat

datatype hval = HNone | HBool bool | HInt int | HLong int | HFloat pyfloat | HStr string
  | HUnicode "nat list" | HRef addr

datatype obj = OList "hval list" | ODict "(key \<times> hval) list"

record heap =
  objs :: "addr \<Rightarrow> obj"
  next_addr :: addr

datatype heap_error = Exn merge_error | OutOfFuel

type_synonym 'a outcome = "(heap_error + 'a) \<times> heap"

definition alloc :: "obj \<Rightarrow> heap \<Rightarrow> addr \<times> heap" where
  "alloc ob h = (next_addr h, h\<lparr>objs := (objs h)(next_addr h := ob), next_addr := Suc (next_addr h)\<rparr>)"

definition dict_of :: "heap \<Rightarrow> addr \<Rightarrow> (key \<times> hval) list" where
  "dict_of h p = (case objs h p of ODict d \<Rightarrow> d | OList xs \<Rightarrow> [])"

definition list_append :: "addr \<Rightarrow> hval \<Rightarrow> heap \<Rightarrow> heap" where
  "list_append p i h =
     (case objs h p of OList xs \<Rightarrow> h\<lparr>objs := (objs h)(p := OList (xs @ [i]))\<rparr> | ODict d \<Rightarrow> h)"

fun entries_set :: "(key \<times> hval) list \<Rightarrow> key \<Rightarrow> hval \<Rightarrow> (key \<times> hval) list" where
  "entries_set [] k v = [(k, v)]"
| "entries_set ((k', v') # d) k v = (if k' = k then (k, v) # d else (k', v') # entries_set d k v)"

definition dict_setitem :: "addr \<Rightarrow> key \<Rightarrow> hval \<Rightarrow> heap \<Rightarrow> heap" where
  "dict_setitem p k v h =
     (case objs h p of ODict d \<Rightarrow> h\<lparr>objs := (objs h)(p := ODict (entries_set d k v))\<rparr>
                     | OList xs \<Rightarrow> h)"

definition h_get :: "heap \<Rightarrow> addr \<Rightarrow> key \<Rightarrow> hval" where
  "h_get h d key = (case map_of (dict_of h d) key of None \<Rightarrow> HNone | Some v \<Rightarrow> v)"

definition h_get_default_new :: "obj \<Rightarrow> addr \<Rightarrow> key \<Rightarrow> heap \<Rightarrow> hval \<times> heap" where
  "h_get_default_new dflt d key h =
     (let (p, h') = alloc dflt h
      in (case map_of (dict_of h' d) key of None \<Rightarrow> HRef p | Some v \<Rightarrow> v, h'))"

fun h_type :: "heap \<Rightarrow> hval \<Rightarrow> pytype" where
  "h_type h HNone = TNone"
| "h_type h (HBool b) = TBool"
| "h_type h (HInt n) = TInt"
| "h_type h (HLong n) = TLong"
| "h_type h (HFloat f) = TFloat"
| "h_type h (HStr s) = TStr"
| "h_type h (HUnicode u) = TUnicode"
| "h_type h (HRef p) = (case objs h p of OList xs \<Rightarrow> TList | ODict d \<Rightarrow> TDict)"

definition h_isinstance :: "heap \<Rightarrow> hval \<Rightarrow> pytype \<Rightarrow> bool" where
  "h_isinstance h v t = (h_type h v = t \<or> (h_type h v = TBool \<and> t = TInt))"

text \<open>
  \<open>reify n h v\<close> reads the Python value that \<open>v\<close> denotes in the heap, following
  references to depth \<open>n\<close>. \<open>heap_eq\<close> is \<^verbatim>\<open>==\<close> on two values of the heap: it compares
  what they denote. It reads the heap and changes nothing; \<open>None\<close> stands for the
  \<^verbatim>\<open>RuntimeError\<close> of a comparison that recurses too deep, which needs a cyclic object.
\<close>

fun all_some :: "'a option list \<Rightarrow> 'a list option" where
  "all_some [] = Some []"
| "all_some (None # xs) = None"
| "all_some (Some x # xs) = (case all_some xs of None \<Rightarrow> None | Some ys \<Rightarrow> Some (x # ys))"

fun reify :: "nat \<Rightarrow> heap \<Rightarrow> hval \<Rightarrow> pyval option" where
  "reify n h HNone = Some PNone"
| "reify n h (HBool b) = Some (PBool b)"
| "reify n h (HInt i) = Some (PInt i)"
| "reify n h (HLong i) = Some (PLong i)"
| "reify n h (HFloat f) = Some (PFloat f)"
| "reify n h (HStr s) = Some (PStr s)"
| "reify n h (HUnicode u) = Some (PUnicode u)"
| "reify 0 h (HRef p) = None"
| "reify (Suc n) h (HRef p) =
     (case objs h p of
        OList xs \<Rightarrow> map_option PList (all_some (map (reify n h) xs))
      | ODict d \<Rightarrow>
          map_option PDict (all_some (map (\<lambda>kv. map_option (Pair (fst kv)) (reify n h (snd kv))) d)))"

definition heap_eq :: "heap \<Rightarrow> hval \<Rightarrow> hval \<Rightarrow> bool option" where
  "heap_eq h x y =
     (case reify (next_addr h) h x of
        None \<Rightarrow> None
      | Some a \<Rightarrow> (case reify (next_addr h) h y of None \<Rightarrow> None | Some b \<Rightarrow> Some (py_eq a b)))"

definition bind_err :: "'e + 'a \<Rightarrow> ('a \<Rightarrow> 'e + 'b) \<Rightarrow> 'e + 'b" where
  "bind_err m f = (case m of Inl e \<Rightarrow> Inl e | Inr x \<Rightarrow> f x)"

definition h_ne :: "heap \<Rightarrow> hval \<Rightarrow> hval \<Rightarrow> heap_error + bool" where
  "h_ne h x y = (case heap_eq h x y of None \<Rightarrow> Inl OutOfFuel | Some b \<Rightarrow> Inr (\<not> b))"

fun h_find :: "heap \<Rightarrow> hval \<Rightarrow> hval list \<Rightarrow> heap_error + hval option" where
  "h_find h i [] = Inr None"
| "h_find h i (e # es) =
     (case heap_eq h e i of
        None \<Rightarrow> Inl OutOfFuel
      | Some True \<Rightarrow> Inr (Some e)
      | Some False \<Rightarrow> h_find h i es)"

fun list_loop :: "nat \<Rightarrow> addr \<Rightarrow> hval \<Rightarrow> nat \<Rightarrow> heap \<Rightarrow> unit outcome" where
  "list_loop 0 res l idx h = (Inl OutOfFuel, h)"
| "list_loop (Suc n) res l idx h =
     (case l of
        HRef p \<Rightarrow>
          (case objs h p of
             OList xs \<Rightarrow>
               if idx < length xs then
                 (case objs h res of
                    OList rs \<Rightarrow>
                      (case h_find h (xs ! idx) rs of
                         Inl e \<Rightarrow> (Inl e, h)
                       | Inr None \<Rightarrow> list_loop n res l (Suc idx) (list_append res (xs ! idx) h)
                       | Inr (Some e) \<Rightarrow>
                           if \<not> h_isinstance h (xs ! idx) (h_type h e)
                           then list_loop n res l (Suc idx) (list_append res (xs ! idx) h)
                           else list_loop n res l (Suc idx) h)
                  | ODict d \<Rightarrow> (Inl (Exn NotIterable), h))
               else (Inr (), h)
           | ODict d \<Rightarrow> (Inl (Exn NotIterable), h))
      | _ \<Rightarrow> (Inl (Exn NotIterable), h))"

fun lists_loop :: "nat \<Rightarrow> addr \<Rightarrow> hval list \<Rightarrow> heap \<Rightarrow> unit outcome" where
  "lists_loop n res [] h = (Inr (), h)"
| "lists_loop n res (l # ls) h =
     (case list_loop n res l 0 h of
        (Inl e, h') \<Rightarrow> (Inl e, h')
      | (Inr u, h') \<Rightarrow> lists_loop n res ls h')"

definition merge_lists_h :: "nat \<Rightarrow> hval list \<Rightarrow> heap \<Rightarrow> hval outcome" where
  "merge_lists_h n ls h =
     (let (res, h1) = alloc (OList []) h
      in case lists_loop n res ls h1 of
           (Inl e, h2) \<Rightarrow> (Inl e, h2)
         | (Inr u, h2) \<Rightarrow> (Inr (HRef res), h2))"


definition h_keys :: "heap \<Rightarrow> hval \<Rightarrow> (addr \<times> key list) option" where
  "h_keys h d =
     (case d of
        HRef p \<Rightarrow> (case objs h p of ODict m \<Rightarrow> Some (p, map fst m) | OList xs \<Rightarrow> None)
      | _ \<Rightarrow> None)"

definition h_key_types :: "heap \<Rightarrow> addr \<Rightarrow> addr \<Rightarrow> addr \<Rightarrow> key \<Rightarrow> pytype list" where
  "h_key_types h ancestor left right key =
     removeAll TNone (remdups (map (\<lambda>d. h_type h (h_get h d key)) [ancestor, left, right]))"

definition h_type_mismatch :: "heap \<Rightarrow> addr \<Rightarrow> addr \<Rightarrow> addr \<Rightarrow> key \<Rightarrow> bool" where
  "h_type_mismatch h ancestor left right key =
     (length (h_key_types h ancestor left right key) > 1 \<and>
      \<not> set (h_key_types h ancestor left right key) \<subseteq> {TStr, TUnicode})"

definition h_any_isinstance :: "pytype \<Rightarrow> heap \<Rightarrow> addr \<Rightarrow> addr \<Rightarrow> addr \<Rightarrow> key \<Rightarrow> bool" where
  "h_any_isinstance t h ancestor left right key =
     list_ex (\<lambda>d. h_isinstance h (h_get h d key) t) [ancestor, left, right]"

definition h_both_differ :: "heap \<Rightarrow> hval \<Rightarrow> hval option \<Rightarrow> hval option \<Rightarrow> heap_error + bool" where
  "h_both_differ h av lo ro =
     (case lo of None \<Rightarrow> Inr False
      | Some lv \<Rightarrow> (case ro of None \<Rightarrow> Inr False
                    | Some rv \<Rightarrow> bind_err (h_ne h av lv)
                                  (\<lambda>dl. if dl then h_ne h av rv else Inr False)))"

definition h_changed :: "heap \<Rightarrow> hval \<Rightarrow> hval option \<Rightarrow> heap_error + bool" where
  "h_changed h av vo = (case vo of None \<Rightarrow> Inr False | Some v \<Rightarrow> h_ne h av v)"

definition merge_scalar_h :: "heap \<Rightarrow> addr \<Rightarrow> addr \<Rightarrow> addr \<Rightarrow> key \<Rightarrow> heap_error + hval" where
  "merge_scalar_h h ancestor left right key =
     (case map_of (dict_of h ancestor) key of
        Some av \<Rightarrow>
          bind_err (h_both_differ h av (map_of (dict_of h left) key) (map_of (dict_of h right) key))
            (\<lambda>both. if both then Inl (Exn (BothChanging key))
               else bind_err (h_changed h av (map_of (dict_of h left) key))
                 (\<lambda>lc. if lc then Inr (h_get h left key)
                    else bind_err (h_changed h av (map_of (dict_of h right) key))
                      (\<lambda>rc. if rc then Inr (h_get h right key) else Inr av)))
      | None \<Rightarrow>
          (case map_of (dict_of h left) key of
             Some lv \<Rightarrow>
               (case map_of (dict_of h right) key of
                  Some rv \<Rightarrow> bind_err (h_ne h lv rv)
                               (\<lambda>d. if d then Inl (Exn (BothChanging key)) else Inr lv)
                | None \<Rightarrow> Inr lv)
           | None \<Rightarrow>
               (case map_of (dict_of h right) key of
                  Some rv \<Rightarrow> Inr rv
                | None \<Rightarrow> Inl (Exn (NoValueFound key)))))"

definition get_defaults :: "obj \<Rightarrow> addr \<Rightarrow> addr \<Rightarrow> addr \<Rightarrow> key \<Rightarrow> heap \<Rightarrow> (hval \<times> hval \<times> hval) \<times> heap" where
  "get_defaults dflt ancestor left right key h =
     (let (va, h1) = h_get_default_new dflt ancestor key h;
          (vl, h2) = h_get_default_new dflt left key h1;
          (vr, h3) = h_get_default_new dflt right key h2
      in ((va, vl, vr), h3))"

function merge_dicts_h :: "nat \<Rightarrow> (key list \<Rightarrow> key list) \<Rightarrow> hval \<Rightarrow> hval \<Rightarrow> hval \<Rightarrow> heap \<Rightarrow> hval outcome"
  and merge_keys_h :: "nat \<Rightarrow> (key list \<Rightarrow> key list) \<Rightarrow> addr \<Rightarrow> addr \<Rightarrow> addr \<Rightarrow> addr \<Rightarrow> key list \<Rightarrow> heap
                         \<Rightarrow> unit outcome"
where
  "merge_dicts_h 0 ko ancestor left right h = (Inl OutOfFuel, h)"
| "merge_dicts_h (Suc n) ko ancestor left right h =
     (case alloc (ODict []) h of
        (res, h1) \<Rightarrow>
          (case h_keys h1 ancestor of
             None \<Rightarrow> (Inl (Exn NoKeysAttribute), h1)
           | Some (a, ka) \<Rightarrow>
               (case h_keys h1 left of
                  None \<Rightarrow> (Inl (Exn NoKeysAttribute), h1)
                | Some (l, kl) \<Rightarrow>
                    (case h_keys h1 right of
                       None \<Rightarrow> (Inl (Exn NoKeysAttribute), h1)
                     | Some (r, kr) \<Rightarrow>
                         (case merge_keys_h n ko a l r res (ko (ka @ kl @ kr)) h1 of
                            (Inl e, h2) \<Rightarrow> (Inl e, h2)
                          | (Inr u, h2) \<Rightarrow> (Inr (HRef res), h2))))))"
| "merge_keys_h n ko a l r res [] h = (Inr (), h)"
| "merge_keys_h n ko a l r res (key # keys) h =
     (if h_type_mismatch h a l r key then (Inl (Exn (TypeMismatch key)), h)
      else if h_any_isinstance TDict h a l r key then
        (case get_defaults (ODict []) a l r key h of
           ((va, vl, vr), h3) \<Rightarrow>
             (case merge_dicts_h n ko va vl vr h3 of
                (Inl e, h4) \<Rightarrow> (Inl e, h4)
              | (Inr v, h4) \<Rightarrow> merge_keys_h n ko a l r res keys (dict_setitem res key v h4)))
      else if h_any_isinstance TList h a l r key then
        (case get_defaults (OList []) a l r key h of
           ((va, vl, vr), h3) \<Rightarrow>
             (case merge_lists_h n [va, vl, vr] h3 of
                (Inl e, h4) \<Rightarrow> (Inl e, h4)
              | (Inr v, h4) \<Rightarrow> merge_keys_h n ko a l r res keys (dict_setitem res key v h4)))
      else
        (case merge_scalar_h h a l r key of
           Inl e \<Rightarrow> (Inl e, h)
         | Inr v \<Rightarrow> merge_keys_h n ko a l r res keys (dict_setitem res key v h)))"
  by pat_completeness auto
termination
  by (relation "inv_image (less_than <*lex*> less_than)
        (\<lambda>x. case x of
           Inl (n, ko, a, l, r, h) \<Rightarrow> (n, 0)
         | Inr (n, ko, a, l, r, res, keys, h) \<Rightarrow> (n, Suc (length keys)))") auto

text \<open>
  \<open>unchanged_below b h0 h\<close>: no object was removed and every object at an address below \<open>b\<close>
  is in \<open>h\<close> what it was in \<open>h0\<close>. \<open>closed h\<close>: the objects of \<open>h\<close> refer to objects of \<open>h\<close>
  only. \<open>mk_heap\<close> builds a heap from a list of objects, and \<open>example_heap\<close> holds an
  ancestor (address 0), a left (1) and a right document (2) with a nested list each in
  ancestor and left and a nested dict in right.
\<close>

definition unchanged_below :: "addr \<Rightarrow> heap \<Rightarrow> heap \<Rightarrow> bool" where
  "unchanged_below b h0 h = (next_addr h0 \<le> next_addr h \<and> (\<forall>p < b. objs h p = objs h0 p))"

definition mk_heap :: "obj list \<Rightarrow> heap" where
  "mk_heap os = \<lparr>objs = (\<lambda>p. if p < length os then os ! p else OList []), next_addr = length os\<rparr>"

fun refs_below :: "addr \<Rightarrow> hval \<Rightarrow> bool" where
  "refs_below b (HRef p) = (p < b)"
| "refs_below b v = True"

definition obj_vals :: "obj \<Rightarrow> hval list" where
  "obj_vals ob = (case ob of OList xs \<Rightarrow> xs | ODict d \<Rightarrow> map snd d)"

definition closed :: "heap \<Rightarrow> bool" where
  "closed h = list_all (\<lambda>p. list_all (refs_below (next_addr h)) (obj_vals (objs h p)))
                       [0..<next_addr h]"

definition example_heap :: heap where
  "example_heap = mk_heap
     [ODict [(''k'', HInt 1), (''l'', HRef 3)],
      ODict [(''k'', HInt 2), (''l'', HRef 4)],
      ODict [(''n'', HRef 5)],
      OList [HInt 1],
      OList [HInt 1, HInt 2],
      ODict [(''x'', HNone)]]"

section \<open>Properties\<close>

lemmas merge_eval_defs =
  type_mismatch_def key_types_def dict_get_def dict_get_default_def dict_lookup_def
  any_isinstance_def isinstance_def merge_scalar_def both_differ_def has_key_def
  merge_lists_def merge_step_def

subsection \<open>C1: the conflict of a key changed by both sides\<close>

text \<open>
  C1 says that a key held by ancestor, left and right with scalar values raises the
  both-changing conflict only when left and right both differ from the ancestor and
  from each other, so that two sides making the same change are accepted. The branch
  for a key of the ancestor compares each side with the ancestor and never left with
  right: with ancestor \<^verbatim>\<open>{"k": 1}\<close>, left \<^verbatim>\<open>{"k": 2}\<close> and right \<^verbatim>\<open>{"k": 2}\<close> the merge
  ends with the conflict. The branch for a key that the ancestor lacks does compare
  left with right.
\<close>

theorem merge_same_change_conflicts:
  "merge_dicts remdups (PDict [(''k'', PInt 1)]) (PDict [(''k'', PInt 2)]) (PDict [(''k'', PInt 2)])
     = Inl (BothChanging ''k'')"
  by (simp add: merge_eval_defs)

subsection \<open>C6: validation reports schema errors before the domain policy\<close>

text \<open>
  C6: when the schema validator yields any error, \<open>validate\<close> raises
  \<open>BlobValidationError\<close> with the list of all the messages the validator yielded, and the
  outcome does not depend on \<open>containsForbiddenDomain\<close> at all; the forbidden-domain
  error is raised only when the validator yielded no error; and with no schema error
  the outcome is that of the domain check.
\<close>

theorem validate_schema_errors_first:
  "(iter_errors self = Inr errors \<and> errors \<noteq> [] \<longrightarrow>
      validate iter_errors cfd self product wl = Inl (BlobValidationError errors) \<and>
      validate iter_errors cfd self product wl = validate iter_errors cfd' self product wl) \<and>
   (validate iter_errors cfd self product wl = Inl ForbiddenDomain \<longrightarrow>
      iter_errors self = Inr [] \<and> cfd self product wl = Inr True) \<and>
   (iter_errors self = Inr [] \<longrightarrow>
      validate iter_errors cfd self product wl =
        (case cfd self product wl of Inl e \<Rightarrow> Inl (Raised e)
         | Inr forbidden \<Rightarrow> if forbidden then Inl ForbiddenDomain else Inr ()))"
  by (auto simp: validate_def split: sum.splits if_splits)

theorem validate_schema_errors_first_witness:
  "validate (\<lambda>_::unit. Inr [''a is required'', ''b is not a string''] :: unit + string list)
            (\<lambda>_ _ _. Inr True) () () ()
     = Inl (BlobValidationError [''a is required'', ''b is not a string'']) \<and>
   validate (\<lambda>_::unit. Inr [''a is required'', ''b is not a string''] :: unit + string list)
            (\<lambda>_ _ _. Inr True) () () ()
     = validate (\<lambda>_::unit. Inr [''a is required'', ''b is not a string''])
            (\<lambda>_ _ _. Inr False) () () () \<and>
   validate (\<lambda>_::unit. Inr [] :: unit + string list) (\<lambda>_ _ _. Inr True) () () ()
     = Inl ForbiddenDomain"
  using validate_schema_errors_first
    [of "\<lambda>_::unit. Inr [''a is required'', ''b is not a string''] :: unit + string list" "()"
        "[''a is required'', ''b is not a string'']" "\<lambda>_ _ _. Inr True" "()" "()"
        "\<lambda>_ _ _. Inr False"]
    validate_schema_errors_first
    [of "\<lambda>_::unit. Inr [] :: unit + string list" "()" "[]" "\<lambda>_ _ _. Inr True" "()" "()"]
  by (simp add: validate_def)

subsection \<open>C7: the version dispatch of createBlob\<close>

text \<open>
  C7 says that every integer \<^verbatim>\<open>schema_version\<close> outside the registered versions ends
  with the unknown-version error. The test \<^verbatim>\<open>not schema_version\<close> takes the integer 0,
  which is present and not registered, for a version that is not set.
\<close>

theorem createBlob_zero_counterexample:
  "createBlob [(''schema_version'', PInt 0)] = Inl SchemaVersionNotSet \<and>
   (0::int) \<notin> {1, 2, 3, 4, 5, 6, 7, 8, 50, 1000, 4000, 5000}"
  by (simp add: createBlob_def dict_get_def dict_lookup_def)

lemma blob_map_None:
  "n \<notin> {1, 2, 3, 4, 5, 6, 7, 8, 50, 1000, 4000, 5000} \<Longrightarrow> map_of blob_map n = None"
  by (simp add: blob_map_def)

lemma blob_map_Some:
  "n \<in> {1, 2, 3, 4, 5, 6, 7, 8, 50, 1000, 4000, 5000} \<Longrightarrow> \<exists>cls. map_of blob_map n = Some cls"
  by (auto simp: blob_map_def)

text \<open>
  C7 as amended: a mapping without \<^verbatim>\<open>schema_version\<close>, or with the integer 0 as its
  value, ends with the not-set error; an integer other than 0 that is not one of the
  registered versions ends with the unknown-version error; a registered version
  constructs the class that \<^verbatim>\<open>blob_map\<close> gives for it from the unchanged mapping; a
  blob is only ever constructed for a version that is present and registered, with
  the class registered for it; and the two errors are different.
\<close>

theorem createBlob_version_dispatch:
  "(dict_lookup data ''schema_version'' = None \<longrightarrow> createBlob data = Inl SchemaVersionNotSet) \<and>
   (dict_lookup data ''schema_version'' = Some v \<and> (v = PInt n \<or> v = PLong n) \<and> n = 0
      \<longrightarrow> createBlob data = Inl SchemaVersionNotSet) \<and>
   (dict_lookup data ''schema_version'' = Some v \<and> (v = PInt n \<or> v = PLong n) \<and> n \<noteq> 0
      \<and> n \<notin> {1, 2, 3, 4, 5, 6, 7, 8, 50, 1000, 4000, 5000}
      \<longrightarrow> createBlob data = Inl SchemaVersionUnknown) \<and>
   (dict_lookup data ''schema_version'' = Some v \<and> (v = PInt n \<or> v = PLong n)
      \<and> n \<in> {1, 2, 3, 4, 5, 6, 7, 8, 50, 1000, 4000, 5000}
      \<longrightarrow> (\<exists>cls. map_of blob_map n = Some cls \<and> createBlob data = Inr (cls, data))) \<and>
   (createBlob data = Inr (cls, data') \<longrightarrow>
      data' = data \<and>
      (\<exists>m. num_of (dict_get data ''schema_version'') = Some m
           \<and> m \<in> {1, 2, 3, 4, 5, 6, 7, 8, 50, 1000, 4000, 5000}
           \<and> map_of blob_map m = Some cls)) \<and>
   Inl SchemaVersionNotSet \<noteq> (Inl SchemaVersionUnknown :: create_error + (variant \<times> dict))"
proof (intro conjI impI)
  assume "dict_lookup data ''schema_version'' = None"
  then show "createBlob data = Inl SchemaVersionNotSet"
    by (simp add: createBlob_def dict_get_def)
next
  assume "dict_lookup data ''schema_version'' = Some v \<and> (v = PInt n \<or> v = PLong n) \<and> n = 0"
  then show "createBlob data = Inl SchemaVersionNotSet"
    by (auto simp: createBlob_def dict_get_def)
next
  assume "dict_lookup data ''schema_version'' = Some v \<and> (v = PInt n \<or> v = PLong n) \<and> n \<noteq> 0
      \<and> n \<notin> {1, 2, 3, 4, 5, 6, 7, 8, 50, 1000, 4000, 5000}"
  then show "createBlob data = Inl SchemaVersionUnknown"
    using blob_map_None[of n]
    by (auto simp: createBlob_def dict_get_def blob_map_find_def)
next
  assume "dict_lookup data ''schema_version'' = Some v \<and> (v = PInt n \<or> v = PLong n)
      \<and> n \<in> {1, 2, 3, 4, 5, 6, 7, 8, 50, 1000, 4000, 5000}"
  then show "\<exists>cls. map_of blob_map n = Some cls \<and> createBlob data = Inr (cls, data)"
    using blob_map_Some[of n]
    by (auto simp: createBlob_def dict_get_def blob_map_find_def)
next
  assume a: "createBlob data = Inr (cls, data')"
  then show "data' = data"
    by (auto simp: createBlob_def Let_def split: if_splits sum.splits option.splits)
  from a have "blob_map_find (dict_get data ''schema_version'') = Inr (Some cls)"
    by (auto simp: createBlob_def Let_def split: if_splits sum.splits option.splits)
  then obtain m where m: "num_of (dict_get data ''schema_version'') = Some m"
      "map_of blob_map m = Some cls"
    by (auto simp: blob_map_find_def split: if_splits option.splits)
  from m(2) have "m \<in> {1, 2, 3, 4, 5, 6, 7, 8, 50, 1000, 4000, 5000}"
    using blob_map_None[of m] by fastforce
  with m show "\<exists>m. num_of (dict_get data ''schema_version'') = Some m
           \<and> m \<in> {1, 2, 3, 4, 5, 6, 7, 8, 50, 1000, 4000, 5000}
           \<and> map_of blob_map m = Some cls"
    by blast
next
  show "Inl SchemaVersionNotSet \<noteq> (Inl SchemaVersionUnknown :: create_error + (variant \<times> dict))"
    by simp
qed

theorem createBlob_version_dispatch_witness:
  "createBlob [(''name'', PStr ''x'')] = Inl SchemaVersionNotSet \<and>
   createBlob [(''schema_version'', PLong 0)] = Inl SchemaVersionNotSet \<and>
   createBlob [(''schema_version'', PInt 9)] = Inl SchemaVersionUnknown \<and>
   (\<exists>cls. map_of blob_map 50 = Some cls \<and>
      createBlob [(''schema_version'', PInt 50), (''name'', PStr ''x'')]
        = Inr (cls, [(''schema_version'', PInt 50), (''name'', PStr ''x'')]))"
  using createBlob_version_dispatch [of "[(''name'', PStr ''x'')]"]
    createBlob_version_dispatch [of "[(''schema_version'', PLong 0)]" "PLong 0" 0]
    createBlob_version_dispatch [of "[(''schema_version'', PInt 9)]" "PInt 9" 9]
    createBlob_version_dispatch
      [of "[(''schema_version'', PInt 50), (''name'', PStr ''x'')]" "PInt 50" 50]
  by (simp add: dict_lookup_def)

subsection \<open>Iteration orders\<close>

lemma key_order_remdups: "key_order remdups"
  by (simp add: key_order_def)

lemma key_order_single:
  assumes "key_order ko" "set ks = {k}"
  shows "ko ks = [k]"
proof -
  from assms have s: "set (ko ks) = {k}" and d: "distinct (ko ks)"
    by (auto simp: key_order_def)
  from d have "length (ko ks) = card (set (ko ks))" by (simp add: distinct_card)
  with s have "length (ko ks) = 1" by simp
  then obtain x where "ko ks = [x]" by (cases "ko ks") auto
  with s show ?thesis by simp
qed

subsection \<open>Lemmas on the type check\<close>

lemma py_type_TNone_iff: "py_type v = TNone \<longleftrightarrow> v = PNone"
  by (cases v) auto

lemma py_type_dict_get:
  "(py_type (dict_get d key) = t \<and> t \<noteq> TNone) \<longleftrightarrow>
     (\<exists>v. dict_lookup d key = Some v \<and> v \<noteq> PNone \<and> py_type v = t)"
  by (cases "dict_lookup d key") (auto simp: dict_get_def py_type_TNone_iff)

lemma set_key_types:
  "set (key_types a l r key) =
     py_type ` {v. v \<noteq> PNone \<and> (\<exists>d \<in> {a, l, r}. dict_lookup d key = Some v)}"
  (is "?L = ?R")
proof (rule set_eqI)
  fix t
  have "t \<in> ?L \<longleftrightarrow> (\<exists>d \<in> {a, l, r}. py_type (dict_get d key) = t \<and> t \<noteq> TNone)"
    unfolding key_types_def by auto
  also have "\<dots> \<longleftrightarrow> (\<exists>d \<in> {a, l, r}. \<exists>v. dict_lookup d key = Some v \<and> v \<noteq> PNone \<and> py_type v = t)"
    unfolding py_type_dict_get ..
  also have "\<dots> \<longleftrightarrow> t \<in> ?R"
    by blast
  finally show "t \<in> ?L \<longleftrightarrow> t \<in> ?R" .
qed

lemma length_key_types: "length (key_types a l r key) = card (set (key_types a l r key))"
  unfolding key_types_def by (simp add: distinct_card distinct_removeAll)

lemma type_mismatch_iff:
  "type_mismatch a l r key \<longleftrightarrow>
     (1 < card (py_type ` {v. v \<noteq> PNone \<and> (\<exists>d \<in> {a, l, r}. dict_lookup d key = Some v)}) \<and>
      \<not> py_type ` {v. v \<noteq> PNone \<and> (\<exists>d \<in> {a, l, r}. dict_lookup d key = Some v)}
          \<subseteq> {TStr, TUnicode})"
  unfolding type_mismatch_def length_key_types set_key_types ..

lemma merge_keys_single_type_mismatch:
  assumes "\<not> type_mismatch a l r key"
    and "merge_keys ko a l r [key] result = Inl (TypeMismatch k')"
  shows "any_isinstance TDict a l r key \<and>
         merge_dicts ko (dict_get_default a key (PDict [])) (dict_get_default l key (PDict []))
                        (dict_get_default r key (PDict [])) = Inl (TypeMismatch k')"
  using assms
  by (auto simp: merge_scalar_def split: if_splits sum.splits option.splits)

subsection \<open>C5: the type check\<close>

text \<open>
  C5 says that the types compared are those of the documents that hold the key, and
  that more than one of them, not all textual, is a type mismatch. The code also
  discards the type of \<^verbatim>\<open>None\<close>: with ancestor \<^verbatim>\<open>{"k": None}\<close>, left \<^verbatim>\<open>{"k": 5}\<close> and an empty
  right, the documents that hold the key give the two types \<^verbatim>\<open>NoneType\<close> and \<^verbatim>\<open>int\<close>,
  and the merge returns \<^verbatim>\<open>{"k": 5}\<close>.
\<close>

theorem type_check_ignores_null_counterexample:
  "spec_type_mismatch [(''k'', PNone)] [(''k'', PInt 5)] [] ''k'' \<and>
   merge_dicts remdups (PDict [(''k'', PNone)]) (PDict [(''k'', PInt 5)]) (PDict [])
     = Inr [(''k'', PInt 5)]"
  by (simp add: spec_type_mismatch_def spec_key_types_def merge_eval_defs)

text \<open>
  C5 as amended. The types compared are those of the values under the key that are
  not \<^verbatim>\<open>None\<close>, over the documents that hold the key. When the loop reaches a key with
  more than one such type, not all of them \<^verbatim>\<open>str\<close> or \<^verbatim>\<open>unicode\<close>, the merge ends with the
  type mismatch naming that key. Otherwise the visit of that key raises a type mismatch
  only out of the recursive merge of the mappings under the key.
\<close>

theorem type_mismatch_check:
  "(type_mismatch a l r key \<longleftrightarrow>
      (1 < card (py_type ` {v. v \<noteq> PNone \<and> (\<exists>d \<in> {a, l, r}. dict_lookup d key = Some v)}) \<and>
       \<not> py_type ` {v. v \<noteq> PNone \<and> (\<exists>d \<in> {a, l, r}. dict_lookup d key = Some v)}
           \<subseteq> {TStr, TUnicode})) \<and>
   (type_mismatch a l r key \<longrightarrow>
      merge_keys ko a l r (key # keys) result = Inl (TypeMismatch key)) \<and>
   (\<not> type_mismatch a l r key \<and> merge_keys ko a l r [key] result = Inl (TypeMismatch k') \<longrightarrow>
      any_isinstance TDict a l r key \<and>
      merge_dicts ko (dict_get_default a key (PDict [])) (dict_get_default l key (PDict []))
                     (dict_get_default r key (PDict [])) = Inl (TypeMismatch k'))"
proof (intro conjI impI)
  show "type_mismatch a l r key \<longleftrightarrow>
      (1 < card (py_type ` {v. v \<noteq> PNone \<and> (\<exists>d \<in> {a, l, r}. dict_lookup d key = Some v)}) \<and>
       \<not> py_type ` {v. v \<noteq> PNone \<and> (\<exists>d \<in> {a, l, r}. dict_lookup d key = Some v)}
           \<subseteq> {TStr, TUnicode})"
    by (rule type_mismatch_iff)
next
  assume "type_mismatch a l r key"
  then show "merge_keys ko a l r (key # keys) result = Inl (TypeMismatch key)"
    by simp
next
  assume h: "\<not> type_mismatch a l r key \<and> merge_keys ko a l r [key] result = Inl (TypeMismatch k')"
  then show "any_isinstance TDict a l r key"
    using merge_keys_single_type_mismatch[of a l r key ko result k'] by blast
  from h show "merge_dicts ko (dict_get_default a key (PDict [])) (dict_get_default l key (PDict []))
                     (dict_get_default r key (PDict [])) = Inl (TypeMismatch k')"
    using merge_keys_single_type_mismatch[of a l r key ko result k'] by blast
qed

theorem type_mismatch_check_witness:
  "type_mismatch [(''k'', PInt 1)] [(''k'', PStr ''x'')] [] ''k'' \<and>
   merge_keys remdups [(''k'', PInt 1)] [(''k'', PStr ''x'')] [] [''k'', ''j''] []
     = Inl (TypeMismatch ''k'') \<and>
   \<not> type_mismatch [(''k'', PDict [(''j'', PInt 1)])] [(''k'', PDict [(''j'', PStr ''x'')])] [] ''k'' \<and>
   merge_keys remdups [(''k'', PDict [(''j'', PInt 1)])] [(''k'', PDict [(''j'', PStr ''x'')])] []
      [''k''] [] = Inl (TypeMismatch ''j'') \<and>
   merge_dicts remdups (PDict [(''j'', PInt 1)]) (PDict [(''j'', PStr ''x'')]) (PDict [])
     = Inl (TypeMismatch ''j'')"
proof -
  have m: "type_mismatch [(''k'', PInt 1)] [(''k'', PStr ''x'')] [] ''k''"
    by (simp add: merge_eval_defs)
  have n: "\<not> type_mismatch [(''k'', PDict [(''j'', PInt 1)])]
                [(''k'', PDict [(''j'', PStr ''x'')])] [] ''k''"
    by (simp add: merge_eval_defs)
  have e: "merge_keys remdups [(''k'', PDict [(''j'', PInt 1)])]
             [(''k'', PDict [(''j'', PStr ''x'')])] [] [''k''] [] = Inl (TypeMismatch ''j'')"
    by (simp add: merge_eval_defs)
  from type_mismatch_check
      [where a="[(''k'', PInt 1)]" and l="[(''k'', PStr ''x'')]" and r="[]" and key="''k''"
         and ko=remdups and keys="[''j'']" and result="[]" and k'="''j''"] m
  have 1: "merge_keys remdups [(''k'', PInt 1)] [(''k'', PStr ''x'')] [] [''k'', ''j''] []
             = Inl (TypeMismatch ''k'')"
    by blast
  from type_mismatch_check
      [where a="[(''k'', PDict [(''j'', PInt 1)])]" and l="[(''k'', PDict [(''j'', PStr ''x'')])]"
         and r="[]" and key="''k''" and ko=remdups and keys="[]" and result="[]" and k'="''j''"]
    n e
  have 2: "merge_dicts remdups (dict_get_default [(''k'', PDict [(''j'', PInt 1)])] ''k'' (PDict []))
             (dict_get_default [(''k'', PDict [(''j'', PStr ''x'')])] ''k'' (PDict []))
             (dict_get_default [] ''k'' (PDict [])) = Inl (TypeMismatch ''j'')"
    by blast
  then have 3: "merge_dicts remdups (PDict [(''j'', PInt 1)]) (PDict [(''j'', PStr ''x'')]) (PDict [])
     = Inl (TypeMismatch ''j'')"
    by (simp add: dict_get_default_def dict_lookup_def)
  from m n e 1 3 show ?thesis by blast
qed

subsection \<open>C10: null is treated as absent by the type check\<close>

lemma single_type_no_mismatch:
  assumes "\<forall>x \<in> {a, l, r}. dict_lookup x key = None \<or> dict_lookup x key = Some PNone \<or>
              (\<exists>v. dict_lookup x key = Some v \<and> py_type v = t)"
  shows "\<not> type_mismatch a l r key"
proof -
  have "set (key_types a l r key) \<subseteq> {t}"
    unfolding set_key_types using assms by auto
  then have "card (set (key_types a l r key)) \<le> card {t}"
    by (intro card_mono) auto
  then show ?thesis
    unfolding type_mismatch_def length_key_types by simp
qed

lemma single_type_not_dict:
  assumes "\<forall>x \<in> {a, l, r}. dict_lookup x key = None \<or> dict_lookup x key = Some PNone \<or>
              (\<exists>v. dict_lookup x key = Some v \<and> py_type v = t)"
    and "t \<noteq> TDict"
  shows "\<not> any_isinstance TDict a l r key"
  using assms by (auto simp: any_isinstance_def isinstance_def dict_get_def)

lemma null_same_as_absent:
  assumes "dict_lookup d key = Some PNone" "dict_lookup d' key = None"
  shows "dict_get d key = dict_get d' key"
  using assms by (simp add: dict_get_def)

text \<open>
  C10: the type check cannot tell a document that holds \<^verbatim>\<open>None\<close> under the key from one
  that lacks the key, in any of the three positions. When every document lacks the key,
  holds \<^verbatim>\<open>None\<close> under it or holds a value of one type \<open>t\<close>, there is no type mismatch for
  the key, and (for \<open>t\<close> other than \<^verbatim>\<open>dict\<close>, where a recursive merge runs) the visit of the
  key raises no type mismatch at all. The example of the claim, ancestor \<^verbatim>\<open>{k: None}\<close>,
  left \<^verbatim>\<open>{k: 5}\<close>, right \<^verbatim>\<open>{}\<close>, merges to \<^verbatim>\<open>{k: 5}\<close> under every iteration order.
\<close>

theorem null_is_absent_in_type_check:
  "(dict_lookup d key = Some PNone \<and> dict_lookup d' key = None \<longrightarrow>
      type_mismatch d l r key = type_mismatch d' l r key \<and>
      type_mismatch a d r key = type_mismatch a d' r key \<and>
      type_mismatch a l d key = type_mismatch a l d' key) \<and>
   ((\<forall>x \<in> {a, l, r}. dict_lookup x key = None \<or> dict_lookup x key = Some PNone \<or>
                      (\<exists>v. dict_lookup x key = Some v \<and> py_type v = t)) \<longrightarrow>
      \<not> type_mismatch a l r key \<and>
      (t \<noteq> TDict \<longrightarrow> merge_keys ko a l r [key] result \<noteq> Inl (TypeMismatch k'))) \<and>
   (key_order ko \<longrightarrow>
      merge_dicts ko (PDict [(k, PNone)]) (PDict [(k, PInt 5)]) (PDict []) = Inr [(k, PInt 5)])"
proof (intro conjI impI)
  assume "dict_lookup d key = Some PNone \<and> dict_lookup d' key = None"
  then have e: "dict_get d key = dict_get d' key"
    using null_same_as_absent by blast
  show "type_mismatch d l r key = type_mismatch d' l r key"
    "type_mismatch a d r key = type_mismatch a d' r key"
    "type_mismatch a l d key = type_mismatch a l d' key"
    by (simp_all add: type_mismatch_def key_types_def e)
next
  assume h: "\<forall>x \<in> {a, l, r}. dict_lookup x key = None \<or> dict_lookup x key = Some PNone \<or>
                      (\<exists>v. dict_lookup x key = Some v \<and> py_type v = t)"
  then show n: "\<not> type_mismatch a l r key" by (rule single_type_no_mismatch)
  assume "t \<noteq> TDict"
  with h have "\<not> any_isinstance TDict a l r key" by (rule single_type_not_dict)
  with n show "merge_keys ko a l r [key] result \<noteq> Inl (TypeMismatch k')"
    using merge_keys_single_type_mismatch by blast
next
  assume "key_order ko"
  then have "ko (map fst [(k, PNone)] @ map fst [(k, PInt 5)] @ map fst []) = [k]"
    by (intro key_order_single) auto
  then show "merge_dicts ko (PDict [(k, PNone)]) (PDict [(k, PInt 5)]) (PDict []) = Inr [(k, PInt 5)]"
    by (simp add: merge_eval_defs)
qed

theorem null_is_absent_in_type_check_witness:
  "type_mismatch [(''k'', PNone)] [(''k'', PInt 5)] [(''k'', PStr ''x'')] ''k''
     = type_mismatch [] [(''k'', PInt 5)] [(''k'', PStr ''x'')] ''k'' \<and>
   \<not> type_mismatch [(''k'', PNone)] [(''k'', PInt 5)] [] ''k'' \<and>
   merge_keys remdups [(''k'', PNone)] [(''k'', PInt 5)] [] [''k''] [] \<noteq> Inl (TypeMismatch ''k'') \<and>
   merge_dicts remdups (PDict [(''k'', PNone)]) (PDict [(''k'', PInt 5)]) (PDict [])
     = Inr [(''k'', PInt 5)]"
proof -
  note T = null_is_absent_in_type_check
      [where d="[(''k'', PNone)]" and d'="[]" and key="''k''" and a="[(''k'', PNone)]"
         and l="[(''k'', PInt 5)]" and r="[]" and t=TInt and ko=remdups and result="[]"
         and k'="''k''" and k="''k''"]
  note U = null_is_absent_in_type_check
      [where d="[(''k'', PNone)]" and d'="[]" and key="''k''" and a="[(''k'', PNone)]"
         and l="[(''k'', PInt 5)]" and r="[(''k'', PStr ''x'')]" and t=TInt and ko=remdups
         and result="[]" and k'="''k''" and k="''k''"]
  have h1: "dict_lookup [(''k'', PNone)] ''k'' = Some PNone \<and> dict_lookup [] ''k'' = None"
    by (simp add: dict_lookup_def)
  have h2: "\<forall>x \<in> {[(''k'', PNone)], [(''k'', PInt 5)], []}.
              dict_lookup x ''k'' = None \<or> dict_lookup x ''k'' = Some PNone \<or>
              (\<exists>v. dict_lookup x ''k'' = Some v \<and> py_type v = TInt)"
    by (simp add: dict_lookup_def)
  have h3: "key_order remdups" "TInt \<noteq> TDict"
    by (simp_all add: key_order_def)
  from U h1 have 1: "type_mismatch [(''k'', PNone)] [(''k'', PInt 5)] [(''k'', PStr ''x'')] ''k''
     = type_mismatch [] [(''k'', PInt 5)] [(''k'', PStr ''x'')] ''k''"
    by blast
  from T h2 h3 have 2: "\<not> type_mismatch [(''k'', PNone)] [(''k'', PInt 5)] [] ''k''"
    "merge_keys remdups [(''k'', PNone)] [(''k'', PInt 5)] [] [''k''] [] \<noteq> Inl (TypeMismatch ''k'')"
    "merge_dicts remdups (PDict [(''k'', PNone)]) (PDict [(''k'', PInt 5)]) (PDict [])
       = Inr [(''k'', PInt 5)]"
    by blast+
  from 1 2 show ?thesis by blast
qed


subsection \<open>C9: the no-value-found branch is unreachable\<close>

lemma merge_scalar_no_value:
  "merge_scalar a l r key = Inl (NoValueFound k) \<Longrightarrow>
     dict_lookup a key = None \<and> dict_lookup l key = None \<and> dict_lookup r key = None"
  by (auto simp: merge_scalar_def split: option.splits if_splits)

lemma dict_lookup_None_iff: "dict_lookup d k = None \<longleftrightarrow> k \<notin> fst ` set d"
  by (simp add: dict_lookup_def map_of_eq_None_iff)

lemma no_value_found_aux:
  "(key_order ko \<longrightarrow> merge_dicts ko ancestor left right \<noteq> Inl (NoValueFound k))"
  "(key_order ko \<longrightarrow> set keys \<subseteq> fst ` set a \<union> fst ` set l \<union> fst ` set r \<longrightarrow>
      merge_keys ko a l r keys result \<noteq> Inl (NoValueFound k))"
proof (induction ko ancestor left right and ko a l r keys result rule: merge_dicts_merge_keys.induct)
  case (1 ko ancestor left right)
  show ?case
  proof (intro impI)
    assume ko: "key_order ko"
    show "merge_dicts ko ancestor left right \<noteq> Inl (NoValueFound k)"
    proof (cases ancestor)
      case (PDict a)
      note A = this
      show ?thesis
      proof (cases left)
        case (PDict l)
        note L = this
        show ?thesis
        proof (cases right)
          case (PDict r)
          have "set (ko (map fst a @ map fst l @ map fst r)) \<subseteq> fst ` set a \<union> fst ` set l \<union> fst ` set r"
            using ko by (auto simp: key_order_def)
          with 1[OF A L PDict] ko show ?thesis using A L PDict by simp
        qed (simp_all add: A L)
      qed (simp_all add: A)
    qed simp_all
  qed
next
  case (2 ko a l r result)
  then show ?case by simp
next
  case (3 ko a l r key keys result)
  show ?case
  proof (intro impI)
    assume ko: "key_order ko" and sub: "set (key # keys) \<subseteq> fst ` set a \<union> fst ` set l \<union> fst ` set r"
    then have sub': "set keys \<subseteq> fst ` set a \<union> fst ` set l \<union> fst ` set r" by simp
    from sub have "\<not> (dict_lookup a key = None \<and> dict_lookup l key = None \<and> dict_lookup r key = None)"
      by (auto simp: dict_lookup_None_iff)
    then have sc: "merge_scalar a l r key \<noteq> Inl (NoValueFound k)"
      using merge_scalar_no_value by blast
    show "merge_keys ko a l r (key # keys) result \<noteq> Inl (NoValueFound k)"
      using 3 ko sub' sc
      by (auto split: sum.splits option.splits)
  qed
qed

text \<open>
  C9: the loop visits exactly the keys of the three documents; the scalar branch on a
  key that one of the documents holds never raises the \<^verbatim>\<open>KeyError\<close>; and no merge, at
  any depth, ends with it.
\<close>

theorem no_value_found_unreachable:
  "(key_order ko \<longrightarrow>
      set (ko (map fst a @ map fst l @ map fst r)) = fst ` set a \<union> fst ` set l \<union> fst ` set r) \<and>
   (has_key key a \<or> has_key key l \<or> has_key key r \<longrightarrow>
      merge_scalar a l r key \<noteq> Inl (NoValueFound k)) \<and>
   (key_order ko \<longrightarrow> merge_dicts ko ancestor left right \<noteq> Inl (NoValueFound k))"
proof (intro conjI impI)
  assume "key_order ko"
  then show "set (ko (map fst a @ map fst l @ map fst r)) = fst ` set a \<union> fst ` set l \<union> fst ` set r"
    by (auto simp: key_order_def)
next
  assume "has_key key a \<or> has_key key l \<or> has_key key r"
  then show "merge_scalar a l r key \<noteq> Inl (NoValueFound k)"
    using merge_scalar_no_value[of a l r key k] by (auto simp: has_key_def)
next
  assume "key_order ko"
  then show "merge_dicts ko ancestor left right \<noteq> Inl (NoValueFound k)"
    using no_value_found_aux(1) by blast
qed

theorem no_value_found_unreachable_witness:
  "set (remdups (map fst [(''a'', PInt 1)] @ map fst [(''b'', PInt 2)] @ map fst ([] :: dict)))
     = fst ` set [(''a'', PInt 1)] \<union> fst ` set [(''b'', PInt 2)] \<union> fst ` set ([] :: dict) \<and>
   merge_scalar [] [(''b'', PInt 2)] [] ''b'' \<noteq> Inl (NoValueFound ''b'') \<and>
   merge_dicts remdups (PDict [(''a'', PInt 1)]) (PDict [(''b'', PInt 2)]) (PDict [])
     \<noteq> Inl (NoValueFound ''b'')"
proof -
  note T = no_value_found_unreachable
      [where ko=remdups and a="[(''a'', PInt 1)]" and l="[(''b'', PInt 2)]" and r="[]"]
  have ko: "key_order remdups" by (rule key_order_remdups)
  have hk: "has_key ''b'' [] \<or> has_key ''b'' [(''b'', PInt 2)] \<or> has_key ''b'' []"
    by (simp add: has_key_def dict_lookup_def)
  have 1: "set (remdups (map fst [(''a'', PInt 1)] @ map fst [(''b'', PInt 2)] @ map fst ([] :: dict)))
     = fst ` set [(''a'', PInt 1)] \<union> fst ` set [(''b'', PInt 2)] \<union> fst ` set ([] :: dict)"
    by (rule T[THEN conjunct1, THEN mp, OF ko])
  have 2: "merge_scalar [] [(''b'', PInt 2)] [] ''b'' \<noteq> Inl (NoValueFound ''b'')"
    by (rule no_value_found_unreachable
      [where key="''b''" and a="[]" and l="[(''b'', PInt 2)]" and r="[]" and k="''b''",
        THEN conjunct2, THEN conjunct1, THEN mp, OF hk])
  have 3: "merge_dicts remdups (PDict [(''a'', PInt 1)]) (PDict [(''b'', PInt 2)]) (PDict [])
     \<noteq> Inl (NoValueFound ''b'')"
    by (rule no_value_found_unreachable
      [where ko=remdups and ancestor="PDict [(''a'', PInt 1)]" and left="PDict [(''b'', PInt 2)]"
         and right="PDict []" and k="''b''", THEN conjunct2, THEN conjunct2, THEN mp, OF ko])
  from 1 2 3 show ?thesis by (intro conjI)
qed

subsection \<open>Equality is reflexive on well-formed values\<close>

lemma dict_lookup_distinct:
  "distinct (map fst d) \<Longrightarrow> (k, v) \<in> set d \<Longrightarrow> dict_lookup d k = Some v"
  by (simp add: dict_lookup_def)

lemma py_eq_refl: "well_formed x \<Longrightarrow> py_eq x x"
proof (induction x)
  case (PList xs)
  then have "\<forall>x \<in> set xs. py_eq x x"
    by (auto simp: list_all_iff)
  then show ?case
    by (auto simp: list_all_iff zip_same)
next
  case (PDict d)
  have "(case dict_lookup d k of None \<Rightarrow> False | Some w \<Rightarrow> py_eq v w)" if kv: "(k, v) \<in> set d" for k v
  proof -
    from PDict.prems kv have l: "dict_lookup d k = Some v"
      by (simp add: dict_lookup_distinct)
    from PDict.prems kv have "well_formed v"
      by (auto simp: list_all_iff)
    with PDict.IH[of "(k, v)" v] kv have "py_eq v v" by simp
    with l show ?thesis by simp
  qed
  then show ?case
    by (auto simp: list_all_iff)
qed simp_all

subsection \<open>C4: the merge of sequences\<close>

lemma merge_lists_concat: "merge_lists ls = foldl merge_step [] (concat ls)"
  unfolding merge_lists_def
proof -
  have "foldl (foldl merge_step) acc ls = foldl merge_step acc (concat ls)" for acc
    by (induction ls arbitrary: acc) simp_all
  then show "foldl (\<lambda>result l. foldl merge_step result l) [] ls = foldl merge_step [] (concat ls)"
    by simp
qed

lemma merge_step_appends_iff:
  "merge_step result i = result @ [i] \<longleftrightarrow>
     (\<forall>e \<in> set result. \<not> py_eq e i) \<or>
     (\<exists>n < length result. py_eq (result ! n) i \<and> (\<forall>m < n. \<not> py_eq (result ! m) i) \<and>
          \<not> isinstance i (py_type (result ! n)))"
proof (cases "find (\<lambda>e. py_eq e i) result")
  case None
  then have "merge_step result i = result @ [i]"
    by (simp add: merge_step_def)
  moreover from None have "\<forall>e \<in> set result. \<not> py_eq e i"
    by (simp add: find_None_iff)
  ultimately show ?thesis by simp
next
  case (Some e)
  then obtain n where n: "n < length result" "py_eq (result ! n) i" "e = result ! n"
      "\<forall>m < n. \<not> py_eq (result ! m) i"
    unfolding find_Some_iff by blast
  have uniq: "n' = n" if "n' < length result" "py_eq (result ! n') i" "\<forall>m < n'. \<not> py_eq (result ! m) i" for n'
    using that n by (meson linorder_neqE_nat)
  from n have ex: "\<not> (\<forall>e \<in> set result. \<not> py_eq e i)"
    by (metis nth_mem)
  show ?thesis
  proof (cases "isinstance i (py_type e)")
    case True
    with Some have "merge_step result i = result" by (simp add: merge_step_def)
    moreover have "\<not> (\<exists>n < length result. py_eq (result ! n) i \<and> (\<forall>m < n. \<not> py_eq (result ! m) i) \<and>
          \<not> isinstance i (py_type (result ! n)))"
      using uniq True n(3) by blast
    ultimately show ?thesis using ex by simp
  next
    case False
    with Some have "merge_step result i = result @ [i]" by (simp add: merge_step_def)
    moreover have "\<exists>n < length result. py_eq (result ! n) i \<and> (\<forall>m < n. \<not> py_eq (result ! m) i) \<and>
          \<not> isinstance i (py_type (result ! n))"
      using n False by blast
    ultimately show ?thesis by simp
  qed
qed

lemma merge_step_cases: "merge_step result i = result @ [i] \<or> merge_step result i = result"
  by (auto simp: merge_step_def split: option.splits)

lemma merge_step_keeps: "set result \<subseteq> set (merge_step result i)"
  using merge_step_cases[of result i] by auto

lemma foldl_merge_step_keeps: "set result \<subseteq> set (foldl merge_step result xs)"
proof (induction xs arbitrary: result)
  case Nil
  show ?case by simp
next
  case (Cons x xs)
  from merge_step_keeps[of result x] Cons[of "merge_step result x"] show ?case by auto
qed

lemma merge_step_present:
  "py_eq i i \<Longrightarrow> \<exists>y \<in> set (merge_step result i). py_eq y i"
  by (auto simp: merge_step_def find_Some_iff split: option.splits)

lemma foldl_merge_step_present:
  "list_all well_formed xs \<Longrightarrow> x \<in> set xs \<Longrightarrow> \<exists>y \<in> set (foldl merge_step result xs). py_eq y x"
proof (induction xs arbitrary: result)
  case Nil
  then show ?case by simp
next
  case (Cons z zs)
  show ?case
  proof (cases "x = z")
    case True
    with Cons.prems have "py_eq x x" by (simp add: py_eq_refl)
    then obtain y where "y \<in> set (merge_step result z)" "py_eq y x"
      using merge_step_present[of x result] True by blast
    with foldl_merge_step_keeps[of "merge_step result z" zs] show ?thesis by auto
  next
    case False
    with Cons.prems have "x \<in> set zs" "list_all well_formed zs" by auto
    from Cons.IH[OF this(2) this(1), of "merge_step result z"] show ?thesis by simp
  qed
qed

text \<open>
  C4 says that an element is appended when an equal element already appended has a
  different runtime type. The code asks \<^verbatim>\<open>isinstance\<close>, for which a \<^verbatim>\<open>bool\<close> is an \<^verbatim>\<open>int\<close>:
  merging \<^verbatim>\<open>[1]\<close>, \<^verbatim>\<open>[True]\<close> and \<^verbatim>\<open>[]\<close> gives \<^verbatim>\<open>[1]\<close>, although \<^verbatim>\<open>True == 1\<close> and the types of
  \<^verbatim>\<open>True\<close> and \<^verbatim>\<open>1\<close> differ.
\<close>

theorem merge_lists_bool_counterexample:
  "merge_lists [[PInt 1], [PBool True], []] = [PInt 1] \<and> py_eq (PInt 1) (PBool True) \<and>
   py_type (PInt 1) \<noteq> py_type (PBool True)"
  by (simp add: merge_eval_defs)


text \<open>
  C4 as amended. \<^verbatim>\<open>merge_lists\<close> walks its arguments in order, one element after the
  other. Each element is either appended or dropped; it is appended exactly when no
  element appended so far equals it, or when the first element appended so far that
  equals it has a type the element is not an instance of (its own type, or \<^verbatim>\<open>int\<close> for a
  \<^verbatim>\<open>bool\<close>). Every element of an argument is equal to an element of the result. Merging
  \<^verbatim>\<open>["x"]\<close>, \<^verbatim>\<open>["x", "y"]\<close> and \<^verbatim>\<open>["x", "z"]\<close> gives \<^verbatim>\<open>["x", "y", "z"]\<close>.
\<close>

theorem merge_lists_union:
  "merge_lists ls = foldl merge_step [] (concat ls) \<and>
   (merge_step result i = result @ [i] \<or> merge_step result i = result) \<and>
   (merge_step result i = result @ [i] \<longleftrightarrow>
      (\<forall>e \<in> set result. \<not> py_eq e i) \<or>
      (\<exists>n < length result. py_eq (result ! n) i \<and> (\<forall>m < n. \<not> py_eq (result ! m) i) \<and>
           \<not> isinstance i (py_type (result ! n)))) \<and>
   (list_all well_formed (concat ls) \<longrightarrow>
      (\<forall>x \<in> set (concat ls). \<exists>y \<in> set (merge_lists ls). py_eq y x)) \<and>
   merge_lists [[PStr ''x''], [PStr ''x'', PStr ''y''], [PStr ''x'', PStr ''z'']]
     = [PStr ''x'', PStr ''y'', PStr ''z'']"
proof (intro conjI impI ballI)
  show "merge_lists ls = foldl merge_step [] (concat ls)"
    by (rule merge_lists_concat)
  show "merge_step result i = result @ [i] \<or> merge_step result i = result"
    by (rule merge_step_cases)
  show "merge_step result i = result @ [i] \<longleftrightarrow>
      (\<forall>e \<in> set result. \<not> py_eq e i) \<or>
      (\<exists>n < length result. py_eq (result ! n) i \<and> (\<forall>m < n. \<not> py_eq (result ! m) i) \<and>
           \<not> isinstance i (py_type (result ! n)))"
    by (rule merge_step_appends_iff)
  show "merge_lists [[PStr ''x''], [PStr ''x'', PStr ''y''], [PStr ''x'', PStr ''z'']]
     = [PStr ''x'', PStr ''y'', PStr ''z'']"
    by (simp add: merge_eval_defs)
next
  fix x
  assume "list_all well_formed (concat ls)" "x \<in> set (concat ls)"
  then show "\<exists>y \<in> set (merge_lists ls). py_eq y x"
    unfolding merge_lists_concat by (rule foldl_merge_step_present)
qed

theorem merge_lists_union_witness:
  "(\<exists>y \<in> set (merge_lists [[PInt 1], [PBool True, PUnicode [120]], [PStr ''x'']]).
      py_eq y (PBool True)) \<and>
   merge_lists [[PInt 1], [PBool True, PUnicode [120]], [PStr ''x'']]
     = [PInt 1, PUnicode [120], PStr ''x'']"
proof -
  have w: "list_all well_formed (concat [[PInt 1], [PBool True, PUnicode [120]], [PStr ''x'']])"
    by simp
  have m: "PBool True \<in> set (concat [[PInt 1], [PBool True, PUnicode [120]], [PStr ''x'']])"
    by simp
  from merge_lists_union
     [where ls="[[PInt 1], [PBool True, PUnicode [120]], [PStr ''x'']]", THEN conjunct2,
      THEN conjunct2, THEN conjunct2, THEN conjunct1, THEN mp, OF w, THEN bspec, OF m]
  have 1: "\<exists>y \<in> set (merge_lists [[PInt 1], [PBool True, PUnicode [120]], [PStr ''x'']]).
      py_eq y (PBool True)" .
  have 2: "merge_lists [[PInt 1], [PBool True, PUnicode [120]], [PStr ''x'']]
     = [PInt 1, PUnicode [120], PStr ''x'']"
    by (simp add: merge_eval_defs decode_ascii_def)
  from 1 2 show ?thesis by (intro conjI)
qed

subsection \<open>Lemmas on dict\_set\<close>

lemma dict_set_keys: "fst ` set (dict_set d k v) = insert k (fst ` set d)"
  by (induction d k v rule: dict_set.induct) (auto split: if_splits)

lemma dict_set_distinct: "distinct (map fst d) \<Longrightarrow> distinct (map fst (dict_set d k v))"
proof (induction d)
  case Nil
  show ?case by simp
next
  case (Cons kv d)
  then show ?case
    using dict_set_keys[of d k v] by (cases kv) (auto simp: image_iff)
qed

lemma dict_set_entries: "set (dict_set d k v) \<subseteq> insert (k, v) (set d)"
  by (induction d k v rule: dict_set.induct) (auto split: if_splits)

subsection \<open>merge\_lists on sequences without equal elements\<close>

lemma py_distinct_append:
  "py_distinct (xs @ ys) \<longleftrightarrow>
     py_distinct xs \<and> py_distinct ys \<and> (\<forall>x \<in> set xs. \<forall>y \<in> set ys. \<not> py_eq x y)"
  by (induction xs) (auto simp: list_all_iff)

lemma foldl_merge_step_new:
  "py_distinct (result @ zs) \<Longrightarrow> foldl merge_step result zs = result @ zs"
proof (induction zs arbitrary: result)
  case Nil
  show ?case by simp
next
  case (Cons z zs)
  from Cons.prems have "\<forall>e \<in> set result. \<not> py_eq e z"
    by (auto simp: py_distinct_append)
  then have "find (\<lambda>e. py_eq e z) result = None"
    by (simp add: find_None_iff)
  then have s: "merge_step result z = result @ [z]"
    by (simp add: merge_step_def)
  from Cons.prems have "py_distinct ((result @ [z]) @ zs)" by simp
  from Cons.IH[OF this] s show ?case by simp
qed

lemma find_own_position:
  "py_distinct xs \<Longrightarrow> z \<in> set xs \<Longrightarrow> py_eq z z \<Longrightarrow> find (\<lambda>e. py_eq e z) xs = Some z"
proof (induction xs)
  case Nil
  then show ?case by simp
next
  case (Cons x xs)
  show ?case
  proof (cases "x = z")
    case True
    with Cons.prems show ?thesis by simp
  next
    case False
    with Cons.prems have "z \<in> set xs" "\<not> py_eq x z" "py_distinct xs"
      by (auto simp: list_all_iff)
    with Cons.IH Cons.prems(3) show ?thesis by simp
  qed
qed

lemma foldl_merge_step_old:
  "py_distinct result \<Longrightarrow> list_all well_formed zs \<Longrightarrow> set zs \<subseteq> set result \<Longrightarrow>
     foldl merge_step result zs = result"
proof (induction zs)
  case Nil
  show ?case by simp
next
  case (Cons z zs)
  then have "find (\<lambda>e. py_eq e z) result = Some z"
    by (intro find_own_position) (auto simp: py_eq_refl)
  then have "merge_step result z = result"
    by (simp add: merge_step_def isinstance_def)
  with Cons show ?case by simp
qed

lemma merge_lists_right:
  assumes "py_distinct ys" "list_all well_formed ys" "take (length xs) ys = xs"
  shows "merge_lists [xs, xs, ys] = ys"
proof -
  from assms(3) obtain zs where ys: "ys = xs @ zs"
    by (metis append_take_drop_id)
  from assms ys have dx: "py_distinct xs" and wx: "list_all well_formed xs"
    by (auto simp: py_distinct_append)
  have 1: "foldl merge_step [] xs = xs"
    using foldl_merge_step_new[of "[]" xs] dx by simp
  have 2: "foldl merge_step xs xs = xs"
    using foldl_merge_step_old[of xs xs] dx wx by simp
  have 3: "foldl merge_step xs zs = xs @ zs"
    using foldl_merge_step_new[of xs zs] assms(1) ys by simp
  show ?thesis
    by (simp add: merge_lists_def ys 1 2 3)
qed

lemma merge_lists_left:
  assumes "py_distinct ys" "list_all well_formed ys" "take (length xs) ys = xs"
  shows "merge_lists [xs, ys, xs] = ys"
proof -
  from assms(3) obtain zs where ys: "ys = xs @ zs"
    by (metis append_take_drop_id)
  from assms ys have dx: "py_distinct xs" and wx: "list_all well_formed xs"
    by (auto simp: py_distinct_append)
  have 1: "foldl merge_step [] xs = xs"
    using foldl_merge_step_new[of "[]" xs] dx by simp
  have 2: "foldl merge_step xs xs = xs"
    using foldl_merge_step_old[of xs xs] dx wx by simp
  have 3: "foldl merge_step xs zs = xs @ zs"
    using foldl_merge_step_new[of xs zs] assms(1) ys by simp
  have 4: "foldl merge_step (xs @ zs) xs = xs @ zs"
    using foldl_merge_step_old[of "xs @ zs" xs] assms(1) wx ys by simp
  show ?thesis
    by (simp add: merge_lists_def ys 1 2 3 4)
qed


subsection \<open>One visit of the loop when only one side changed\<close>

lemma well_formed_lookup:
  "well_formed (PDict d) \<Longrightarrow> dict_lookup d k = Some v \<Longrightarrow> well_formed v"
  by (auto simp: dict_lookup_def list_all_iff dest!: map_of_SomeD)

lemma seqs_distinct_lookup:
  "seqs_distinct (PDict d) \<Longrightarrow> dict_lookup d k = Some v \<Longrightarrow> seqs_distinct v"
  by (auto simp: dict_lookup_def list_all_iff dest!: map_of_SomeD)

lemma clean_change_lookup:
  "clean_change (PDict a) (PDict r) \<Longrightarrow> dict_lookup a k = Some va \<Longrightarrow>
     \<exists>vr. dict_lookup r k = Some vr \<and> clean_change va vr"
  by (auto simp: list_all_iff dict_lookup_def[of a] dest!: map_of_SomeD split: option.splits)

lemma isinstance_TDict [simp]: "isinstance v TDict \<longleftrightarrow> py_type v = TDict"
  by (simp add: isinstance_def)

lemma isinstance_TList [simp]: "isinstance v TList \<longleftrightarrow> py_type v = TList"
  by (simp add: isinstance_def)

lemma py_type_TDict_iff: "py_type v = TDict \<longleftrightarrow> (\<exists>d. v = PDict d)"
  by (cases v) auto

lemma py_type_TList_iff: "py_type v = TList \<longleftrightarrow> (\<exists>xs. v = PList xs)"
  by (cases v) auto

text \<open>What the type check and the three branches see of a key: the value of the
  unchanged sides (absent, or \<open>va\<close>) and the value \<open>vt\<close> of the changed side.\<close>

lemma clean_change_types:
  assumes "clean_change va vt"
  shows "(py_type va = TDict \<longleftrightarrow> py_type vt = TDict) \<and> (py_type va = TList \<longleftrightarrow> py_type vt = TList)
       \<and> (py_type va = py_type vt \<or> va = PNone \<or> vt = PNone \<or>
           (py_type va \<in> {TStr, TUnicode} \<and> py_type vt \<in> {TStr, TUnicode}))"
  using assms by (cases va; cases vt) auto

lemma no_mismatch_two:
  assumes "ta = tt \<or> ta = TNone \<or> tt = TNone \<or> (ta \<in> {TStr, TUnicode} \<and> tt \<in> {TStr, TUnicode})"
  shows "\<not> (1 < length (removeAll TNone (remdups [ta, ta, tt])) \<and>
            \<not> set (removeAll TNone (remdups [ta, ta, tt])) \<subseteq> {TStr, TUnicode})"
    and "\<not> (1 < length (removeAll TNone (remdups [ta, tt, ta])) \<and>
            \<not> set (removeAll TNone (remdups [ta, tt, ta])) \<subseteq> {TStr, TUnicode})"
  using assms by auto

lemma step_no_mismatch:
  assumes "dict_lookup t key = Some vt"
    and "dict_lookup a key = None \<or> (\<exists>va. dict_lookup a key = Some va \<and> clean_change va vt)"
  shows "\<not> type_mismatch a a t key" and "\<not> type_mismatch a t a key"
proof -
  have "py_type (dict_get a key) = py_type (dict_get t key) \<or> py_type (dict_get a key) = TNone
      \<or> py_type (dict_get t key) = TNone
      \<or> (py_type (dict_get a key) \<in> {TStr, TUnicode} \<and> py_type (dict_get t key) \<in> {TStr, TUnicode})"
  proof (cases "dict_lookup a key")
    case None
    then show ?thesis by (simp add: dict_get_def)
  next
    case (Some va)
    with assms(2) have "clean_change va vt" by simp
    from clean_change_types[OF this] show ?thesis
      using Some assms(1) by (auto simp: dict_get_def)
  qed
  from no_mismatch_two[OF this]
  show "\<not> type_mismatch a a t key" and "\<not> type_mismatch a t a key"
    by (simp_all add: type_mismatch_def key_types_def)
qed


lemma step_dict:
  assumes "dict_lookup t key = Some vt"
    and "dict_lookup a key = None \<or>
         (\<exists>va. dict_lookup a key = Some va \<and> clean_change va vt \<and> well_formed va)"
    and "py_type (dict_get a key) = TDict \<or> py_type (dict_get t key) = TDict"
  shows "\<exists>da dt. dict_get_default a key (PDict []) = PDict da \<and>
           dict_get_default t key (PDict []) = PDict dt \<and> vt = PDict dt \<and>
           well_formed (PDict da) \<and> clean_change (PDict da) (PDict dt)"
proof (cases "dict_lookup a key")
  case None
  with assms show ?thesis
    by (auto simp: dict_get_def dict_get_default_def py_type_TDict_iff)
next
  case (Some va)
  with assms(2) have c: "clean_change va vt" and w: "well_formed va" by auto
  from clean_change_types[OF c] assms(1,3) Some
  have "py_type va = TDict" "py_type vt = TDict"
    by (auto simp: dict_get_def)
  then obtain da dt where "va = PDict da" "vt = PDict dt"
    by (auto simp: py_type_TDict_iff)
  with c w Some assms(1) show ?thesis
    by (simp add: dict_get_default_def)
qed

lemma step_list:
  assumes "dict_lookup t key = Some vt"
    and "dict_lookup a key = None \<or>
         (\<exists>va. dict_lookup a key = Some va \<and> clean_change va vt \<and> well_formed va)"
    and "py_type (dict_get a key) = TList \<or> py_type (dict_get t key) = TList"
    and "well_formed vt" "seqs_distinct vt"
  shows "\<exists>xs ys. dict_get_default a key (PList []) = PList xs \<and>
           dict_get_default t key (PList []) = PList ys \<and> vt = PList ys \<and>
           merge_lists [xs, xs, ys] = ys \<and> merge_lists [xs, ys, xs] = ys"
proof (cases "dict_lookup a key")
  case None
  with assms(1,3) obtain ys where ys: "vt = PList ys"
    by (auto simp: dict_get_def py_type_TList_iff)
  with assms(4,5) have "merge_lists [[], [], ys] = ys" "merge_lists [[], ys, []] = ys"
    using merge_lists_right[of ys "[]"] merge_lists_left[of ys "[]"] by simp_all
  with None ys assms(1) show ?thesis
    by (simp add: dict_get_default_def)
next
  case (Some va)
  with assms(2) have c: "clean_change va vt" by auto
  from clean_change_types[OF c] assms(1,3) Some
  have "py_type va = TList" "py_type vt = TList"
    by (auto simp: dict_get_def)
  then obtain xs ys where v: "va = PList xs" "vt = PList ys"
    by (auto simp: py_type_TList_iff)
  with c assms(4,5) have "merge_lists [xs, xs, ys] = ys" "merge_lists [xs, ys, xs] = ys"
    using merge_lists_right[of ys xs] merge_lists_left[of ys xs] by simp_all
  with v Some assms(1) show ?thesis
    by (simp add: dict_get_default_def)
qed

lemma step_scalar:
  assumes "dict_lookup t key = Some vt"
    and "dict_lookup a key = None \<or>
         (\<exists>va. dict_lookup a key = Some va \<and> clean_change va vt \<and> well_formed va)"
    and "well_formed vt"
  shows "\<exists>v. merge_scalar a a t key = Inr v \<and> py_eq v vt"
    and "\<exists>v. merge_scalar a t a key = Inr v \<and> py_eq v vt"
proof -
  have r: "py_eq vt vt" using assms(3) by (rule py_eq_refl)
  show "\<exists>v. merge_scalar a a t key = Inr v \<and> py_eq v vt"
  proof (cases "dict_lookup a key")
    case None
    with assms(1) r show ?thesis by (simp add: merge_scalar_def)
  next
    case (Some va)
    with assms(2) have "py_eq va va" by (auto simp: py_eq_refl)
    with Some assms(1) r show ?thesis
      by (simp add: merge_scalar_def both_differ_def has_key_def dict_get_def)
  qed
  show "\<exists>v. merge_scalar a t a key = Inr v \<and> py_eq v vt"
  proof (cases "dict_lookup a key")
    case None
    with assms(1) r show ?thesis by (simp add: merge_scalar_def)
  next
    case (Some va)
    with assms(2) have "py_eq va va" by (auto simp: py_eq_refl)
    with Some assms(1) r show ?thesis
      by (simp add: merge_scalar_def both_differ_def has_key_def dict_get_def)
  qed
qed

lemma agrees_Nil: "agrees [] t"
  by (simp add: agrees_def)

lemma agrees_dict_set:
  assumes "agrees result t" "dict_lookup t key = Some vt" "py_eq v vt"
  shows "agrees (dict_set result key v) t"
proof -
  from assms(1) have "distinct (map fst (dict_set result key v))"
    by (simp add: agrees_def dict_set_distinct)
  moreover have "case dict_lookup t k of None \<Rightarrow> False | Some w \<Rightarrow> py_eq x w"
    if "(k, x) \<in> set (dict_set result key v)" for k x
  proof -
    from that dict_set_entries[of result key v] have "(k, x) = (key, v) \<or> (k, x) \<in> set result"
      by auto
    then show ?thesis
      using assms by (auto simp: agrees_def list_all_iff)
  qed
  ultimately show ?thesis
    by (auto simp: agrees_def list_all_iff)
qed

lemma agrees_py_eq:
  assumes "agrees res t" "fst ` set res = fst ` set t" "distinct (map fst t)"
  shows "py_eq (PDict res) (PDict t)"
proof -
  from assms(1) have d: "distinct (map fst res)" by (simp add: agrees_def)
  have "length res = length (map fst res)" by simp
  also have "\<dots> = card (set (map fst res))" by (rule distinct_card[OF d, symmetric])
  also have "\<dots> = card (set (map fst t))" using assms(2) by simp
  also have "\<dots> = length (map fst t)" by (rule distinct_card[OF assms(3)])
  finally have "length res = length t" by simp
  with assms(1) show ?thesis by (simp add: agrees_def)
qed


subsection \<open>The merge when only one side changed\<close>

text \<open>
  The loop invariant, for both positions of the unchanged side at once: \<open>t\<close> is the
  changed side, and the other of \<open>left\<close> and \<open>right\<close> is the ancestor.
\<close>

lemma one_sided_aux:
  "key_order ko \<longrightarrow>
     (\<forall>t. (left = ancestor \<and> t = right) \<or> (right = ancestor \<and> t = left) \<longrightarrow>
        py_type ancestor = TDict \<longrightarrow> well_formed ancestor \<longrightarrow> well_formed t \<longrightarrow>
        clean_change ancestor t \<longrightarrow> seqs_distinct t \<longrightarrow>
        (\<exists>res. merge_dicts ko ancestor left right = Inr res \<and> py_eq (PDict res) t))"
  "key_order ko \<longrightarrow>
     (\<forall>t. (l = a \<and> t = r) \<or> (r = a \<and> t = l) \<longrightarrow>
        well_formed (PDict a) \<longrightarrow> well_formed (PDict t) \<longrightarrow>
        clean_change (PDict a) (PDict t) \<longrightarrow> seqs_distinct (PDict t) \<longrightarrow>
        set keys \<subseteq> fst ` set t \<longrightarrow> agrees result t \<longrightarrow>
        (\<exists>res. merge_keys ko a l r keys result = Inr res \<and> agrees res t \<and>
               fst ` set res = fst ` set result \<union> set keys))"
proof (induction ko ancestor left right and ko a l r keys result rule: merge_dicts_merge_keys.induct)
  case (1 ko ancestor left right)
  show ?case
  proof (intro impI allI)
    fix t
    assume ko: "key_order ko"
      and sides: "(left = ancestor \<and> t = right) \<or> (right = ancestor \<and> t = left)"
      and ty: "py_type ancestor = TDict"
      and wfa: "well_formed ancestor" and wft: "well_formed t"
      and cc: "clean_change ancestor t" and sd: "seqs_distinct t"
    from ty obtain a where A: "ancestor = PDict a" by (auto simp: py_type_TDict_iff)
    from cc A obtain dt where T: "t = PDict dt" by (cases t) auto
    from sides A T obtain l r where L: "left = PDict l" and R: "right = PDict r"
      and sides': "(l = a \<and> dt = r) \<or> (r = a \<and> dt = l)"
      by auto
    have sub_a: "fst ` set a \<subseteq> fst ` set dt"
    proof
      fix k assume "k \<in> fst ` set a"
      then obtain va where "dict_lookup a k = Some va"
        using dict_lookup_None_iff[of a k] by auto
      from clean_change_lookup[OF cc[unfolded A T] this]
      show "k \<in> fst ` set dt" using dict_lookup_None_iff[of dt k] by auto
    qed
    have keys: "set (ko (map fst a @ map fst l @ map fst r)) = fst ` set dt"
      using ko sides' sub_a by (auto simp: key_order_def)
    have keys_sub: "set (ko (map fst a @ map fst l @ map fst r)) \<subseteq> fst ` set dt"
      using keys by simp
    from 1[OF A L R, rule_format, OF ko sides' wfa[unfolded A] wft[unfolded T] cc[unfolded A T]
        sd[unfolded T] keys_sub agrees_Nil]
    obtain res where res: "merge_keys ko a l r (ko (map fst a @ map fst l @ map fst r)) [] = Inr res"
        "agrees res dt"
        "fst ` set res = fst ` set ([] :: dict) \<union> set (ko (map fst a @ map fst l @ map fst r))"
      by blast
    from res(3) keys have "fst ` set res = fst ` set dt" by simp
    with res(2) wft have "py_eq (PDict res) (PDict dt)"
      unfolding T by (intro agrees_py_eq) simp_all
    with res(1) show "\<exists>res. merge_dicts ko ancestor left right = Inr res \<and> py_eq (PDict res) t"
      by (simp add: A L R T)
  qed
next
  case (2 ko a l r result)
  show ?case by simp
next
  case (3 ko a l r key keys result)
  show ?case
  proof (intro impI allI)
    fix t
    assume ko: "key_order ko"
      and sides: "(l = a \<and> t = r) \<or> (r = a \<and> t = l)"
      and wfa: "well_formed (PDict a)" and wft: "well_formed (PDict t)"
      and cc: "clean_change (PDict a) (PDict t)" and sd: "seqs_distinct (PDict t)"
      and sub: "set (key # keys) \<subseteq> fst ` set t" and ag: "agrees result t"
    from sub obtain vt where kt: "dict_lookup t key = Some vt"
      using dict_lookup_None_iff[of t key] by auto
    have wvt: "well_formed vt" and svt: "seqs_distinct vt"
      using well_formed_lookup[OF wft kt] seqs_distinct_lookup[OF sd kt] by simp_all
    have ka: "dict_lookup a key = None \<or>
         (\<exists>va. dict_lookup a key = Some va \<and> clean_change va vt \<and> well_formed va)"
    proof (cases "dict_lookup a key")
      case None
      then show ?thesis by simp
    next
      case (Some va)
      from clean_change_lookup[OF cc Some] kt well_formed_lookup[OF wfa Some] Some
      show ?thesis by simp
    qed
    have sub': "set keys \<subseteq> fst ` set t" using sub by simp
    have nm: "\<not> type_mismatch a l r key"
      using sides step_no_mismatch[of t key vt a] kt ka by blast
    have anyD: "any_isinstance TDict a l r key \<longleftrightarrow>
        py_type (dict_get a key) = TDict \<or> py_type (dict_get t key) = TDict"
      using sides by (auto simp: any_isinstance_def)
    have anyL: "any_isinstance TList a l r key \<longleftrightarrow>
        py_type (dict_get a key) = TList \<or> py_type (dict_get t key) = TList"
      using sides by (auto simp: any_isinstance_def)
    have fin: "\<exists>res. merge_keys ko a l r keys (dict_set result key v) = Inr res \<and> agrees res t \<and>
               fst ` set res = fst ` set result \<union> set (key # keys)"
      if ih: "key_order ko \<longrightarrow>
         (\<forall>t. (l = a \<and> t = r) \<or> (r = a \<and> t = l) \<longrightarrow>
          well_formed (PDict a) \<longrightarrow> well_formed (PDict t) \<longrightarrow>
          clean_change (PDict a) (PDict t) \<longrightarrow> seqs_distinct (PDict t) \<longrightarrow>
          set keys \<subseteq> fst ` set t \<longrightarrow> agrees (dict_set result key v) t \<longrightarrow>
          (\<exists>res. merge_keys ko a l r keys (dict_set result key v) = Inr res \<and> agrees res t \<and>
               fst ` set res = fst ` set (dict_set result key v) \<union> set keys))"
        and eq: "py_eq v vt" for v
    proof -
      from agrees_dict_set[OF ag kt eq] have "agrees (dict_set result key v) t" .
      with ih ko sides wfa wft cc sd sub'
      obtain res where "merge_keys ko a l r keys (dict_set result key v) = Inr res" "agrees res t"
        "fst ` set res = fst ` set (dict_set result key v) \<union> set keys"
        by blast
      then show ?thesis by (auto simp: dict_set_keys)
    qed
    show "\<exists>res. merge_keys ko a l r (key # keys) result = Inr res \<and> agrees res t \<and>
               fst ` set res = fst ` set result \<union> set (key # keys)"
    proof (cases "any_isinstance TDict a l r key")
      case True
      with anyD have "py_type (dict_get a key) = TDict \<or> py_type (dict_get t key) = TDict" by simp
      from step_dict[OF kt ka this]
      obtain da dt where d: "dict_get_default a key (PDict []) = PDict da"
        "dict_get_default t key (PDict []) = PDict dt" "vt = PDict dt"
        "well_formed (PDict da)" "clean_change (PDict da) (PDict dt)"
        by blast
      have sides': "(dict_get_default l key (PDict []) = dict_get_default a key (PDict []) \<and>
                      PDict dt = dict_get_default r key (PDict [])) \<or>
                    (dict_get_default r key (PDict []) = dict_get_default a key (PDict []) \<and>
                      PDict dt = dict_get_default l key (PDict []))"
        using sides d(2) by auto
      have p: "py_type (dict_get_default a key (PDict [])) = TDict"
        "well_formed (dict_get_default a key (PDict []))" "well_formed (PDict dt)"
        "clean_change (dict_get_default a key (PDict [])) (PDict dt)" "seqs_distinct (PDict dt)"
        using d wvt svt by simp_all
      from "3.IH"(1)[OF nm True, rule_format, OF ko sides' p]
      obtain v where v: "merge_dicts ko (dict_get_default a key (PDict []))
           (dict_get_default l key (PDict [])) (dict_get_default r key (PDict [])) = Inr v"
          "py_eq (PDict v) (PDict dt)"
        by blast
      from fin[OF "3.IH"(2)[OF nm True v(1)], of ] v(2) d(3)
      show ?thesis using nm True v(1) by simp
    next
      case False
      note noD = this
      show ?thesis
      proof (cases "any_isinstance TList a l r key")
        case True
        with anyL have "py_type (dict_get a key) = TList \<or> py_type (dict_get t key) = TList" by simp
        from step_list[OF kt ka this wvt svt]
        obtain xs ys where x: "dict_get_default a key (PList []) = PList xs"
          "dict_get_default t key (PList []) = PList ys" "vt = PList ys"
          "merge_lists [xs, xs, ys] = ys" "merge_lists [xs, ys, xs] = ys"
          by blast
        from sides x obtain ls where ls: "as_lists [dict_get_default a key (PList []),
            dict_get_default l key (PList []), dict_get_default r key (PList [])] = Some ls"
          "merge_lists ls = ys"
          by auto
        have "py_eq (PList (merge_lists ls)) vt"
          using py_eq_refl[OF wvt] by (simp only: ls(2) x(3))
        from fin[OF "3.IH"(3)[OF nm noD True ls(1)] this]
        show ?thesis using nm noD True ls(1) by simp
      next
        case False
        from sides step_scalar[OF kt ka wvt]
        obtain v where v: "merge_scalar a l r key = Inr v" "py_eq v vt"
          by blast
        from fin[OF "3.IH"(4)[OF nm noD False v(1)] v(2)]
        show ?thesis using nm noD False v(1) by simp
      qed
    qed
  qed
qed


lemma clean_change_refl: "well_formed x \<Longrightarrow> clean_change x x"
proof (induction x)
  case (PDict d)
  have "case dict_lookup d k of None \<Rightarrow> False | Some vr \<Rightarrow> clean_change v vr"
    if kv: "(k, v) \<in> set d" for k v
  proof -
    from PDict.prems kv have l: "dict_lookup d k = Some v"
      by (simp add: dict_lookup_distinct)
    from PDict.prems kv have "well_formed v"
      by (auto simp: list_all_iff)
    with PDict.IH[of "(k, v)" v] kv have "clean_change v v" by simp
    with l show ?thesis by simp
  qed
  then show ?case
    by (auto simp: list_all_iff)
qed simp_all

subsection \<open>C2: a one-sided change\<close>




subsection \<open>C3: merging a document with itself\<close>

text \<open>
  C3 says that \<^verbatim>\<open>merge(a, a, a) == a\<close> also for sequences with repeated elements. The
  document \<^verbatim>\<open>{"k": [1, 1]}\<close> merges with itself to \<^verbatim>\<open>{"k": [1]}\<close>.
\<close>

theorem merge_identity_counterexample:
  "merge_dicts remdups (PDict [(''k'', PList [PInt 1, PInt 1])]) (PDict [(''k'', PList [PInt 1, PInt 1])])
       (PDict [(''k'', PList [PInt 1, PInt 1])])
     = Inr [(''k'', PList [PInt 1])] \<and>
   \<not> py_eq (PDict [(''k'', PList [PInt 1])]) (PDict [(''k'', PList [PInt 1, PInt 1])])"
  by (simp add: merge_eval_defs)

text \<open>
  C3 as amended: a well-formed document that holds no NaN and whose sequences have no
  equal elements merges with itself, as all three inputs, to a document equal to it,
  under every iteration order.
\<close>

theorem merge_identity:
  "key_order ko \<and> well_formed (PDict a) \<and> seqs_distinct (PDict a) \<longrightarrow>
     (\<exists>res. merge_dicts ko (PDict a) (PDict a) (PDict a) = Inr res \<and> py_eq (PDict res) (PDict a))"
proof
  assume h: "key_order ko \<and> well_formed (PDict a) \<and> seqs_distinct (PDict a)"
  then have ko: "key_order ko" and wa: "well_formed (PDict a)" and sd: "seqs_distinct (PDict a)"
    by blast+
  have ty: "py_type (PDict a) = TDict" by simp
  have s: "(PDict a = PDict a \<and> PDict a = PDict a) \<or> (PDict a = PDict a \<and> PDict a = PDict a)"
    by simp
  from wa have cc: "clean_change (PDict a) (PDict a)" by (rule clean_change_refl)
  show "\<exists>res. merge_dicts ko (PDict a) (PDict a) (PDict a) = Inr res \<and> py_eq (PDict res) (PDict a)"
    by (rule one_sided_aux(1)[rule_format, OF ko s ty wa wa cc sd])
qed

theorem merge_identity_witness:
  "\<exists>res. merge_dicts remdups
       (PDict [(''a'', PInt 1), (''f'', PFloat (FNum (1 / 2))), (''g'', PFloat FPosInf),
               (''n'', PDict [(''x'', PStr ''s''), (''y'', PNone)]),
               (''l'', PList [PInt 1, PInt 2, PList [PInt 1, PInt 1]])])
       (PDict [(''a'', PInt 1), (''f'', PFloat (FNum (1 / 2))), (''g'', PFloat FPosInf),
               (''n'', PDict [(''x'', PStr ''s''), (''y'', PNone)]),
               (''l'', PList [PInt 1, PInt 2, PList [PInt 1, PInt 1]])])
       (PDict [(''a'', PInt 1), (''f'', PFloat (FNum (1 / 2))), (''g'', PFloat FPosInf),
               (''n'', PDict [(''x'', PStr ''s''), (''y'', PNone)]),
               (''l'', PList [PInt 1, PInt 2, PList [PInt 1, PInt 1]])]) = Inr res \<and>
     py_eq (PDict res)
       (PDict [(''a'', PInt 1), (''f'', PFloat (FNum (1 / 2))), (''g'', PFloat FPosInf),
               (''n'', PDict [(''x'', PStr ''s''), (''y'', PNone)]),
               (''l'', PList [PInt 1, PInt 2, PList [PInt 1, PInt 1]])])"
proof -
  have h: "key_order remdups \<and>
     well_formed (PDict [(''a'', PInt 1), (''f'', PFloat (FNum (1 / 2))), (''g'', PFloat FPosInf),
               (''n'', PDict [(''x'', PStr ''s''), (''y'', PNone)]),
               (''l'', PList [PInt 1, PInt 2, PList [PInt 1, PInt 1]])]) \<and>
     seqs_distinct (PDict [(''a'', PInt 1), (''f'', PFloat (FNum (1 / 2))), (''g'', PFloat FPosInf),
               (''n'', PDict [(''x'', PStr ''s''), (''y'', PNone)]),
               (''l'', PList [PInt 1, PInt 2, PList [PInt 1, PInt 1]])])"
    by (simp add: key_order_def)
  show ?thesis
    by (rule merge_identity[THEN mp, OF h])
qed

subsection \<open>C8: a merge does not change its inputs\<close>

lemma unchanged_refl: "unchanged_below b h h"
  by (simp add: unchanged_below_def)

lemma unchanged_trans:
  "unchanged_below b h0 h1 \<Longrightarrow> unchanged_below b h1 h2 \<Longrightarrow> unchanged_below b h0 h2"
  by (auto simp: unchanged_below_def)

lemma unchanged_mono: "unchanged_below b h0 h \<Longrightarrow> c \<le> b \<Longrightarrow> unchanged_below c h0 h"
  by (auto simp: unchanged_below_def)

lemma alloc_unchanged:
  "alloc ob h = (p, h') \<Longrightarrow>
     unchanged_below (next_addr h) h h' \<and> p = next_addr h \<and> next_addr h' = Suc p"
  by (auto simp: alloc_def unchanged_below_def)

lemma list_append_unchanged:
  "unchanged_below b h0 h \<Longrightarrow> b \<le> p \<Longrightarrow> unchanged_below b h0 (list_append p i h)"
  by (auto simp: list_append_def unchanged_below_def split: obj.splits)

lemma dict_setitem_unchanged:
  "unchanged_below b h0 h \<Longrightarrow> b \<le> p \<Longrightarrow> unchanged_below b h0 (dict_setitem p k v h)"
  by (auto simp: dict_setitem_def unchanged_below_def split: obj.splits)

lemma h_get_default_new_unchanged:
  "h_get_default_new dflt d key h = (v, h') \<Longrightarrow> unchanged_below (next_addr h) h h'"
  by (auto simp: h_get_default_new_def alloc_def unchanged_below_def split: prod.splits)

lemma unchanged_step:
  "unchanged_below (next_addr h0) h0 h1 \<Longrightarrow> unchanged_below (next_addr h1) h1 h2 \<Longrightarrow>
     unchanged_below (next_addr h0) h0 h2"
  by (auto simp: unchanged_below_def)

lemma get_defaults_unchanged:
  assumes "get_defaults dflt a l r key h = (vs, h')"
  shows "unchanged_below (next_addr h) h h'"
proof -
  obtain va h1 where 1: "h_get_default_new dflt a key h = (va, h1)" by force
  obtain vl h2 where 2: "h_get_default_new dflt l key h1 = (vl, h2)" by force
  obtain vr h3 where 3: "h_get_default_new dflt r key h2 = (vr, h3)" by force
  from assms 1 2 3 have "h' = h3" by (simp add: get_defaults_def)
  with h_get_default_new_unchanged[OF 1] h_get_default_new_unchanged[OF 2]
    h_get_default_new_unchanged[OF 3]
  show ?thesis by (blast intro: unchanged_step)
qed

lemma list_loop_unchanged:
  "unchanged_below b h0 h \<Longrightarrow> b \<le> res \<Longrightarrow> list_loop n res l idx h = (out, h') \<Longrightarrow>
     unchanged_below b h0 h'"
proof (induction n res l idx h rule: list_loop.induct)
  case (1 res l idx h)
  then show ?case by simp
next
  case (2 n res l idx h)
  from "2.prems"(1,2) have ap: "unchanged_below b h0 (list_append res v h)" for v
    by (rule list_append_unchanged)
  show ?case
  proof (cases l)
    case (HRef p)
    show ?thesis
    proof (cases "objs h p")
      case (OList xs)
      note X = this
      show ?thesis
      proof (cases "idx < length xs")
        case True
        show ?thesis
        proof (cases "objs h res")
          case (OList rs)
          show ?thesis
          proof (cases "h_find h (xs ! idx) rs")
            case (Inl e)
            with "2.prems" HRef X True OList show ?thesis by simp
          next
            case (Inr found)
            show ?thesis
            proof (cases found)
              case None
              from "2.IH"(1)[OF HRef X True OList Inr None ap "2.prems"(2)] "2.prems"(3)
              show ?thesis using HRef X True OList Inr None by simp
            next
              case (Some e)
              show ?thesis
              proof (cases "h_isinstance h (xs ! idx) (h_type h e)")
                case False
                from "2.IH"(2)[OF HRef X True OList Inr Some False ap "2.prems"(2)] "2.prems"(3)
                show ?thesis using HRef X True OList Inr Some False by simp
              next
                case True2: True
                from "2.IH"(3)[OF HRef X True OList Inr Some _ "2.prems"(1,2)] "2.prems"(3)
                show ?thesis using HRef X True OList Inr Some True2 by simp
              qed
            qed
          qed
        next
          case (ODict d)
          with "2.prems" HRef X True show ?thesis by simp
        qed
      next
        case False
        with "2.prems" HRef X show ?thesis by simp
      qed
    next
      case (ODict d)
      with "2.prems" HRef show ?thesis by simp
    qed
  qed (use "2.prems" in simp_all)
qed

lemma lists_loop_unchanged:
  "unchanged_below b h0 h \<Longrightarrow> b \<le> res \<Longrightarrow> lists_loop n res ls h = (out, h') \<Longrightarrow>
     unchanged_below b h0 h'"
proof (induction ls arbitrary: h)
  case Nil
  then show ?case by simp
next
  case (Cons l ls)
  obtain o1 h1 where 1: "list_loop n res l 0 h = (o1, h1)" by force
  from list_loop_unchanged[OF Cons.prems(1,2) 1] have u: "unchanged_below b h0 h1" .
  show ?case
  proof (cases o1)
    case (Inl e)
    with Cons.prems(3) 1 u show ?thesis by simp
  next
    case (Inr x)
    with Cons.prems(3) 1 have "lists_loop n res ls h1 = (out, h')" by simp
    from Cons.IH[OF u Cons.prems(2) this] show ?thesis .
  qed
qed

lemma merge_lists_h_unchanged:
  assumes "merge_lists_h n ls h = (out, h')"
  shows "unchanged_below (next_addr h) h h' \<and>
         (\<forall>v. out = Inr v \<longrightarrow> (\<exists>p. v = HRef p \<and> next_addr h \<le> p \<and> p < next_addr h'))"
proof -
  obtain res h1 where a: "alloc (OList []) h = (res, h1)" by force
  obtain o2 h2 where l: "lists_loop n res ls h1 = (o2, h2)" by force
  from alloc_unchanged[OF a] have u1: "unchanged_below (next_addr h) h h1" and r: "res = next_addr h"
    "next_addr h1 = Suc res" by simp_all
  from lists_loop_unchanged[OF u1 _ l] r have u2: "unchanged_below (next_addr h) h h2" by simp
  from lists_loop_unchanged[OF unchanged_refl _ l, of res] have "unchanged_below res h1 h2"
    by simp
  then have n2: "res < next_addr h2" using r by (simp add: unchanged_below_def)
  from assms a l have "h' = h2" "out = (case o2 of Inl e \<Rightarrow> Inl e | Inr u \<Rightarrow> Inr (HRef res))"
    by (auto simp: merge_lists_h_def split: sum.splits)
  with u2 n2 r show ?thesis by (auto split: sum.splits)
qed


lemma dict_setitem_next [simp]: "next_addr (dict_setitem p k v h) = next_addr h"
  by (simp add: dict_setitem_def split: obj.splits)

lemma unchanged_below_next: "unchanged_below b h0 h \<Longrightarrow> next_addr h0 \<le> next_addr h"
  by (simp add: unchanged_below_def)

lemma unchanged_chain:
  "unchanged_below b h0 h \<Longrightarrow> b \<le> next_addr h \<Longrightarrow> unchanged_below (next_addr h) h h1 \<Longrightarrow>
     unchanged_below b h0 h1"
  by (auto simp: unchanged_below_def)

lemma merge_h_frame:
  "\<forall>out h'. merge_dicts_h n ko ancestor left right h = (out, h') \<longrightarrow>
      unchanged_below (next_addr h) h h' \<and>
      (\<forall>v. out = Inr v \<longrightarrow> (\<exists>p. v = HRef p \<and> next_addr h \<le> p \<and> p < next_addr h'))"
  "\<forall>out h' b h0. merge_keys_h n ko a l r res keys h = (out, h') \<longrightarrow>
      unchanged_below b h0 h \<longrightarrow> b \<le> res \<longrightarrow> b \<le> next_addr h \<longrightarrow>
      unchanged_below b h0 h' \<and> next_addr h \<le> next_addr h'"
proof (induction n ko ancestor left right h and n ko a l r res keys h
       rule: merge_dicts_h_merge_keys_h.induct)
  case (1 ko ancestor left right h)
  show ?case by (simp add: unchanged_refl)
next
  case (2 n ko ancestor left right h)
  show ?case
  proof (intro allI impI)
    fix out h'
    assume eq: "merge_dicts_h (Suc n) ko ancestor left right h = (out, h')"
    obtain res h1 where al: "alloc (ODict []) h = (res, h1)" by force
    from alloc_unchanged[OF al] have u1: "unchanged_below (next_addr h) h h1"
      and r: "res = next_addr h" "next_addr h1 = Suc res" by simp_all
    show "unchanged_below (next_addr h) h h' \<and>
      (\<forall>v. out = Inr v \<longrightarrow> (\<exists>p. v = HRef p \<and> next_addr h \<le> p \<and> p < next_addr h'))"
    proof (cases "h_keys h1 ancestor")
      case None
      with eq al u1 show ?thesis by auto
    next
      case A: (Some x2)
      obtain a ka where x2: "x2 = (a, ka)" by force
      show ?thesis
      proof (cases "h_keys h1 left")
        case None
        with eq al u1 A x2 show ?thesis by auto
      next
        case L: (Some x2a)
        obtain l kl where x2a: "x2a = (l, kl)" by force
        show ?thesis
        proof (cases "h_keys h1 right")
          case None
          with eq al u1 A x2 L x2a show ?thesis by auto
        next
          case R: (Some x2b)
          obtain r' kr where x2b: "x2b = (r', kr)" by force
          obtain o2 h2 where mk: "merge_keys_h n ko a l r' res (ko (ka @ kl @ kr)) h1 = (o2, h2)"
            by force
          note ih = "2.IH"[OF al[symmetric] A x2[symmetric] L x2a[symmetric] R x2b[symmetric],
              rule_format, OF mk]
          from ih[of "next_addr h" h, OF u1] r
          have u2: "unchanged_below (next_addr h) h h2" and n2: "next_addr h1 \<le> next_addr h2"
            by simp_all
          from eq al A x2 L x2a R x2b mk
          have "h' = h2" "out = (case o2 of Inl e \<Rightarrow> Inl e | Inr u \<Rightarrow> Inr (HRef res))"
            by (auto split: sum.splits)
          with u2 n2 r show ?thesis by (auto split: sum.splits)
        qed
      qed
    qed
  qed
next
  case (3 n ko a l r res h)
  show ?case by simp
next
  case (4 n ko a l r res key keys h)
  show ?case
  proof (intro allI impI)
    fix out h' b h0
    assume eq: "merge_keys_h n ko a l r res (key # keys) h = (out, h')"
      and ub: "unchanged_below b h0 h" and br: "b \<le> res" and bn: "b \<le> next_addr h"
    show "unchanged_below b h0 h' \<and> next_addr h \<le> next_addr h'"
    proof (cases "h_type_mismatch h a l r key")
      case True
      with eq ub show ?thesis by simp
    next
      case nm: False
      show ?thesis
      proof (cases "h_any_isinstance TDict h a l r key")
        case anyD: True
        obtain va vl vr h3 where gd: "get_defaults (ODict []) a l r key h = ((va, vl, vr), h3)"
          by (metis prod.exhaust)
        obtain o4 h4 where md: "merge_dicts_h n ko va vl vr h3 = (o4, h4)" by force
        from get_defaults_unchanged[OF gd] have u3: "unchanged_below (next_addr h) h h3" .
        from "4.IH"(1)[OF nm anyD gd[symmetric] refl refl, rule_format, OF md]
        have u4: "unchanged_below (next_addr h3) h3 h4" by simp
        have ub3: "unchanged_below b h0 h3" by (rule unchanged_chain[OF ub bn u3])
        have n3: "next_addr h \<le> next_addr h3" using u3 by (rule unchanged_below_next)
        have n4: "next_addr h3 \<le> next_addr h4" using u4 by (rule unchanged_below_next)
        have ub4: "unchanged_below b h0 h4"
          using unchanged_chain[OF ub3 _ u4] bn n3 by simp
        show ?thesis
        proof (cases o4)
          case (Inl e)
          with eq nm anyD gd md have "h' = h4" by simp
          with ub4 n3 n4 show ?thesis by simp
        next
          case (Inr v)
          with eq nm anyD gd md
          have mk: "merge_keys_h n ko a l r res keys (dict_setitem res key v h4) = (out, h')"
            by simp
          from "4.IH"(2)[OF nm anyD gd[symmetric] refl refl md[symmetric] Inr, rule_format, OF mk
              dict_setitem_unchanged[OF ub4 br] br] bn n3 n4
          show ?thesis by simp
        qed
      next
        case noD: False
        show ?thesis
        proof (cases "h_any_isinstance TList h a l r key")
          case anyL: True
          obtain va vl vr h3 where gd: "get_defaults (OList []) a l r key h = ((va, vl, vr), h3)"
            by (metis prod.exhaust)
          obtain o4 h4 where ml: "merge_lists_h n [va, vl, vr] h3 = (o4, h4)" by force
          from get_defaults_unchanged[OF gd] have u3: "unchanged_below (next_addr h) h h3" .
          from merge_lists_h_unchanged[OF ml]
          have u4: "unchanged_below (next_addr h3) h3 h4" by simp
          have ub3: "unchanged_below b h0 h3" by (rule unchanged_chain[OF ub bn u3])
          have n3: "next_addr h \<le> next_addr h3" using u3 by (rule unchanged_below_next)
          have n4: "next_addr h3 \<le> next_addr h4" using u4 by (rule unchanged_below_next)
          have ub4: "unchanged_below b h0 h4"
            using unchanged_chain[OF ub3 _ u4] bn n3 by simp
          show ?thesis
          proof (cases o4)
            case (Inl e)
            with eq nm noD anyL gd ml have "h' = h4" by simp
            with ub4 n3 n4 show ?thesis by simp
          next
            case (Inr v)
            with eq nm noD anyL gd ml
            have mk: "merge_keys_h n ko a l r res keys (dict_setitem res key v h4) = (out, h')"
              by simp
            from "4.IH"(3)[OF nm noD anyL gd[symmetric] refl refl ml[symmetric] Inr, rule_format,
                OF mk dict_setitem_unchanged[OF ub4 br] br] bn n3 n4
            show ?thesis by simp
          qed
        next
          case noL: False
          show ?thesis
          proof (cases "merge_scalar_h h a l r key")
            case (Inl e)
            with eq nm noD noL ub show ?thesis by simp
          next
            case (Inr v)
            with eq nm noD noL
            have mk: "merge_keys_h n ko a l r res keys (dict_setitem res key v h) = (out, h')"
              by simp
            from "4.IH"(4)[OF nm noD noL Inr, rule_format, OF mk
                dict_setitem_unchanged[OF ub br] br] bn
            show ?thesis by simp
          qed
        qed
      qed
    qed
  qed
qed


lemma reify_unchanged:
  "closed h \<Longrightarrow> unchanged_below (next_addr h) h h' \<Longrightarrow> refs_below (next_addr h) v \<Longrightarrow>
     reify k h' v = reify k h v"
proof (induction k arbitrary: v)
  case 0
  then show ?case by (cases v) simp_all
next
  case (Suc k)
  show ?case
  proof (cases v)
    case (HRef p)
    with Suc.prems have p: "p < next_addr h" by simp
    with Suc.prems(2) have o: "objs h' p = objs h p" by (simp add: unchanged_below_def)
    from Suc.prems(1) p have vs: "\<forall>x \<in> set (obj_vals (objs h p)). refs_below (next_addr h) x"
      by (auto simp: closed_def list_all_iff)
    show ?thesis
    proof (cases "objs h p")
      case (OList xs)
      with vs have m: "map (reify k h') xs = map (reify k h) xs"
        using Suc.IH[OF Suc.prems(1,2)] by (auto simp: obj_vals_def)
      show ?thesis by (simp add: HRef o OList m)
    next
      case (ODict d)
      with vs have m: "map (\<lambda>kv. map_option (Pair (fst kv)) (reify k h' (snd kv))) d
                  = map (\<lambda>kv. map_option (Pair (fst kv)) (reify k h (snd kv))) d"
        using Suc.IH[OF Suc.prems(1,2)] by (auto simp: obj_vals_def)
      show ?thesis by (simp add: HRef o ODict m)
    qed
  qed simp_all
qed

text \<open>
  C8: whatever the outcome of a merge, a document or an exception, no object that
  existed before the call is changed by it: the three inputs, their nested mappings
  and sequences, and every other object. A value that referred to existing objects of
  a closed heap denotes the same Python value after the call as before it. A document
  that is returned is an object created during the call.
\<close>

theorem merge_leaves_inputs_unchanged:
  "merge_dicts_h n ko ancestor left right h = (out, h') \<longrightarrow>
     next_addr h \<le> next_addr h' \<and>
     (\<forall>p < next_addr h. objs h' p = objs h p) \<and>
     (\<forall>v. out = Inr v \<longrightarrow> (\<exists>p. v = HRef p \<and> next_addr h \<le> p \<and> p < next_addr h')) \<and>
     (closed h \<longrightarrow> (\<forall>v k. refs_below (next_addr h) v \<longrightarrow> reify k h' v = reify k h v))"
proof
  assume eq: "merge_dicts_h n ko ancestor left right h = (out, h')"
  from merge_h_frame(1)[rule_format, OF eq]
  have u: "unchanged_below (next_addr h) h h'"
    and f: "\<forall>v. out = Inr v \<longrightarrow> (\<exists>p. v = HRef p \<and> next_addr h \<le> p \<and> p < next_addr h')"
    by blast+
  from u have "next_addr h \<le> next_addr h'" "\<forall>p < next_addr h. objs h' p = objs h p"
    by (simp_all add: unchanged_below_def)
  moreover have "closed h \<longrightarrow> (\<forall>v k. refs_below (next_addr h) v \<longrightarrow> reify k h' v = reify k h v)"
    using reify_unchanged[OF _ u] by blast
  ultimately show "next_addr h \<le> next_addr h' \<and>
     (\<forall>p < next_addr h. objs h' p = objs h p) \<and>
     (\<forall>v. out = Inr v \<longrightarrow> (\<exists>p. v = HRef p \<and> next_addr h \<le> p \<and> p < next_addr h')) \<and>
     (closed h \<longrightarrow> (\<forall>v k. refs_below (next_addr h) v \<longrightarrow> reify k h' v = reify k h v))"
    using f by blast
qed

theorem merge_leaves_inputs_unchanged_witness:
  "fst (merge_dicts_h 5 remdups (HRef 0) (HRef 1) (HRef 2) example_heap) = Inr (HRef 6) \<and>
   next_addr example_heap = 6 \<and>
   objs (snd (merge_dicts_h 5 remdups (HRef 0) (HRef 1) (HRef 2) example_heap)) 0
     = objs example_heap 0 \<and>
   objs (snd (merge_dicts_h 5 remdups (HRef 0) (HRef 1) (HRef 2) example_heap)) 4
     = objs example_heap 4 \<and>
   6 < next_addr (snd (merge_dicts_h 5 remdups (HRef 0) (HRef 1) (HRef 2) example_heap)) \<and>
   reify 2 (snd (merge_dicts_h 5 remdups (HRef 0) (HRef 1) (HRef 2) example_heap)) (HRef 1)
     = reify 2 example_heap (HRef 1)"
proof -
  let ?m = "merge_dicts_h 5 remdups (HRef 0) (HRef 1) (HRef 2) example_heap"
  have e: "?m = (fst ?m, snd ?m)" by simp
  note T = merge_leaves_inputs_unchanged[where out="fst ?m" and h'="snd ?m", THEN mp, OF e]
  have o: "fst ?m = Inr (HRef 6)" by code_simp
  have n: "next_addr example_heap = 6" by code_simp
  have c: "closed example_heap" by code_simp
  from T n have 1: "objs (snd ?m) 0 = objs example_heap 0" "objs (snd ?m) 4 = objs example_heap 4"
    by simp_all
  from T o obtain p where "HRef 6 = HRef p" "p < next_addr (snd ?m)" by blast
  then have 2: "6 < next_addr (snd ?m)" by simp
  from T c n have 3: "reify 2 (snd ?m) (HRef 1) = reify 2 example_heap (HRef 1)" by simp
  from o n 1 2 3 show ?thesis by (intro conjI)
qed

text \<open>
  On the example the two embeddings agree: the document the merge on the heap returns
  denotes the value that \<open>merge_dicts\<close> computes from the values the inputs denote.
\<close>

lemma heap_merge_example_agrees:
  "map_option PDict
     (case merge_dicts remdups (the (reify 2 example_heap (HRef 0)))
             (the (reify 2 example_heap (HRef 1))) (the (reify 2 example_heap (HRef 2))) of
        Inl e \<Rightarrow> None | Inr d \<Rightarrow> Some d)
   = reify 2 (snd (merge_dicts_h 5 remdups (HRef 0) (HRef 1) (HRef 2) example_heap))
       (case fst (merge_dicts_h 5 remdups (HRef 0) (HRef 1) (HRef 2) example_heap) of
          Inl e \<Rightarrow> HNone | Inr v \<Rightarrow> v)"
  by code_simp

end
